theory Spec2Isabelle
  imports Complex_Main "HOL-Library.Multiset"
begin

section \<open>Dates and numbers\<close>

text \<open>
  A JavaScript \<open>Date\<close> is its time value: the number of milliseconds since the epoch,
  an integer. The views read dates through local-time accessors (\<open>getHours\<close>,
  \<open>getDate\<close>, date-fns). Local time is modelled as a zone with a fixed offset of zero
  and no daylight-saving transitions, so that every calendar day has \<open>86400000\<close>
  milliseconds. Invalid dates (a time value of NaN) are outside the model.
  Pixel quantities are JavaScript numbers and are modelled as reals.
\<close>

type_synonym date = int

definition MS_PER_MINUTE :: int where "MS_PER_MINUTE = 60000"
definition MS_PER_HOUR :: int where "MS_PER_HOUR = 3600000"
definition MS_PER_DAY :: int where "MS_PER_DAY = 86400000"

text \<open>\<open>Math.trunc(a / b)\<close> for integers \<open>a\<close> and a positive \<open>b\<close>: rounding towards zero.\<close>

definition truncDiv :: "int \<Rightarrow> int \<Rightarrow> int" where
  "truncDiv a b = (if 0 \<le> a then a div b else - ((- a) div b))"

text \<open>\<open>Math.round\<close>: the nearest integer, a tie going towards plus infinity.\<close>

definition Math_round :: "real \<Rightarrow> int" where
  "Math_round x = \<lfloor>x + 1 / 2\<rfloor>"

definition getHours :: "date \<Rightarrow> int" where
  "getHours d = (d mod MS_PER_DAY) div MS_PER_HOUR"

definition getMinutes :: "date \<Rightarrow> int" where
  "getMinutes d = (d mod MS_PER_HOUR) div MS_PER_MINUTE"

text \<open>The number of the calendar day that holds the instant (day 0 is 1970-01-01).\<close>

definition dayIndex :: "date \<Rightarrow> int" where
  "dayIndex d = d div MS_PER_DAY"

definition isSameDay :: "date \<Rightarrow> date \<Rightarrow> bool" where
  "isSameDay a b = (dayIndex a = dayIndex b)"

text \<open>date-fns \<open>differenceInMinutes\<close> and \<open>differenceInDays\<close>: the number of full
  minutes (days) between two dates, truncated towards zero.\<close>

definition differenceInMinutes :: "date \<Rightarrow> date \<Rightarrow> int" where
  "differenceInMinutes later earlier = truncDiv (later - earlier) MS_PER_MINUTE"

definition differenceInDays :: "date \<Rightarrow> date \<Rightarrow> int" where
  "differenceInDays later earlier = truncDiv (later - earlier) MS_PER_DAY"

text \<open>date-fns \<open>addDays\<close>: the same local time of day, \<open>amount\<close> calendar days later.\<close>

definition addDays :: "date \<Rightarrow> int \<Rightarrow> date" where
  "addDays d amount = d + amount * MS_PER_DAY"


text \<open>The civil calendar (proleptic Gregorian) behind \<open>getFullYear\<close>, \<open>getMonth\<close> and
  \<open>getDate\<close>: the day number is split into 400-year eras; the result is
  \<open>(year, month, day)\<close> with the month counted from 1.\<close>

definition civilFromDays :: "int \<Rightarrow> int \<times> int \<times> int" where
  "civilFromDays n =
     (let z = n + 719468;
          era = z div 146097;
          doe = z - era * 146097;
          yoe = (doe - doe div 1460 + doe div 36524 - doe div 146096) div 365;
          y = yoe + era * 400;
          doy = doe - (365 * yoe + yoe div 4 - yoe div 100);
          mp = (5 * doy + 2) div 153;
          d = doy - (153 * mp + 2) div 5 + 1;
          m = (if mp < 10 then mp + 3 else mp - 9)
      in (if m \<le> 2 then y + 1 else y, m, d))"

definition daysFromCivil :: "int \<Rightarrow> int \<Rightarrow> int \<Rightarrow> int" where
  "daysFromCivil y0 m d =
     (let y = (if m \<le> 2 then y0 - 1 else y0);
          era = y div 400;
          yoe = y - era * 400;
          doy = (153 * (if m > 2 then m - 3 else m + 9) + 2) div 5 + d - 1;
          doe = yoe * 365 + yoe div 4 - yoe div 100 + doy
      in era * 146097 + doe - 719468)"

definition getFullYear :: "date \<Rightarrow> int" where
  "getFullYear d = fst (civilFromDays (dayIndex d))"

text \<open>\<open>getMonth\<close> counts from 0, \<open>getDate\<close> from 1.\<close>

definition getMonth :: "date \<Rightarrow> int" where
  "getMonth d = fst (snd (civilFromDays (dayIndex d))) - 1"

definition getDate :: "date \<Rightarrow> int" where
  "getDate d = snd (snd (civilFromDays (dayIndex d)))"

text \<open>date-fns \<open>startOfMonth\<close>: the first day of the month at 00:00:00.000;
  \<open>endOfMonth\<close>: its last day at 23:59:59.999.\<close>

definition startOfMonth :: "date \<Rightarrow> date" where
  "startOfMonth d = daysFromCivil (getFullYear d) (getMonth d + 1) 1 * MS_PER_DAY"

definition endOfMonth :: "date \<Rightarrow> date" where
  "endOfMonth d =
     (let y = getFullYear d; m = getMonth d + 1
      in (if m = 12 then daysFromCivil (y + 1) 1 1 else daysFromCivil y (m + 1) 1) * MS_PER_DAY - 1)"

text \<open>Numbers as strings: \<open>String(n)\<close> and \<open>padStart(k, '0')\<close>.\<close>

fun showNat :: "nat \<Rightarrow> string" where
  "showNat n = (if n < 10 then [char_of (48 + n)] else showNat (n div 10) @ [char_of (48 + n mod 10)])"

definition numberToString :: "int \<Rightarrow> string" where
  "numberToString i = (if i < 0 then CHR ''-'' # showNat (nat (- i)) else showNat (nat i))"

definition padStart :: "nat \<Rightarrow> string \<Rightarrow> string" where
  "padStart targetLength str = replicate (targetLength - length str) CHR ''0'' @ str"

text \<open>\<open>formatDateString\<close> (dateUtils.ts): the local date as \<open>YYYY-MM-DD\<close>.\<close>

definition formatDateString :: "date \<Rightarrow> string" where
  "formatDateString d =
     (let year = getFullYear d;
          month = padStart 2 (numberToString (getMonth d + 1));
          day = padStart 2 (numberToString (getDate d))
      in numberToString year @ ''-'' @ month @ ''-'' @ day)"

text \<open>\<open>Date.prototype.toISOString\<close>: \<open>YYYY-MM-DDTHH:mm:ss.sssZ\<close>, the year with a sign and
  six digits outside 0 to 9999.\<close>

definition toISOString :: "date \<Rightarrow> string" where
  "toISOString d =
     (let y = getFullYear d;
          yearStr = (if 0 \<le> y \<and> y \<le> 9999 then padStart 4 (showNat (nat y))
                     else (if y < 0 then CHR ''-'' else CHR ''+'') # padStart 6 (showNat (nat \<bar>y\<bar>)));
          ms = d mod MS_PER_DAY
      in yearStr @ ''-'' @ padStart 2 (numberToString (getMonth d + 1))
           @ ''-'' @ padStart 2 (numberToString (getDate d))
           @ ''T'' @ padStart 2 (numberToString (getHours d))
           @ '':'' @ padStart 2 (numberToString (getMinutes d))
           @ '':'' @ padStart 2 (numberToString ((ms mod MS_PER_MINUTE) div 1000))
           @ ''.'' @ padStart 3 (numberToString (ms mod 1000)) @ ''Z'')"

text \<open>The property write sink: a call \<open>updateProperty(file, propertyName, value)\<close> is recorded
  as a triple; a handler returns the list of calls it issues, in order. The store maps a
  file and a property name to the value last written.\<close>

type_synonym propertyWrite = "string \<times> string \<times> string"

type_synonym propertyStore = "string \<times> string \<Rightarrow> string option"

definition applyWrites :: "propertyStore \<Rightarrow> propertyWrite list \<Rightarrow> propertyStore" where
  "applyWrites store writes = fold (\<lambda>w st. st((fst w, fst (snd w)) \<mapsto> snd (snd w))) writes store"

datatype handle = HandleStart | HandleEnd

section \<open>Calendar day view: overlap layout (DayView.tsx)\<close>

record CalendarEvent =
  eventId :: string
  title :: string
  date :: date
  endDate :: "date option"
  eventFile :: string

record EventWithLayout =
  event :: CalendarEvent
  top_pos :: real
  height :: real
  column :: nat
  totalColumns :: nat

definition HOUR_HEIGHT :: real where "HOUR_HEIGHT = 60"

definition eventsOverlap :: "real \<Rightarrow> real \<Rightarrow> real \<Rightarrow> real \<Rightarrow> bool" where
  "eventsOverlap start1 end1 start2 end2 = (start1 < end2 \<and> end1 > start2)"

text \<open>\<open>getEventPosition\<close> returns the pair \<open>(top, height)\<close>.\<close>

definition getEventPosition :: "CalendarEvent \<Rightarrow> date \<Rightarrow> real \<times> real" where
  "getEventPosition ev currentDate =
     (let startHour = getHours (date ev);
          startMinutes = getMinutes (date ev);
          tp = real_of_int startHour * HOUR_HEIGHT + (real_of_int startMinutes / 60) * HOUR_HEIGHT
      in case endDate ev of
           None \<Rightarrow> (tp, HOUR_HEIGHT)
         | Some e \<Rightarrow>
             if \<not> isSameDay (date ev) e then
               if isSameDay (date ev) currentDate then (tp, 24 * HOUR_HEIGHT - tp)
               else if isSameDay e currentDate then
                 (0, real_of_int (getHours e) * HOUR_HEIGHT + (real_of_int (getMinutes e) / 60) * HOUR_HEIGHT)
               else (0, 24 * HOUR_HEIGHT)
             else
               (tp, max ((real_of_int (differenceInMinutes e (date ev)) / 60) * HOUR_HEIGHT) 20))"

text \<open>The loop \<open>while (occupiedColumns.has(column)) column++\<close>.\<close>

function firstFreeColumn :: "nat list \<Rightarrow> nat \<Rightarrow> nat" where
  "firstFreeColumn occupiedColumns col =
     (if col \<in> set occupiedColumns then firstFreeColumn occupiedColumns (Suc col) else col)"
  by pat_completeness auto
termination
proof (relation "measure (\<lambda>(occ, c). Suc (Max (set occ)) - c)")
  show "wf (measure (\<lambda>(occ, c). Suc (Max (set occ)) - c))"
    by simp
next
  fix occupiedColumns :: "nat list" and col :: nat
  assume "col \<in> set occupiedColumns"
  then have "col \<le> Max (set occupiedColumns)"
    by simp
  then show "((occupiedColumns, Suc col), (occupiedColumns, col))
      \<in> measure (\<lambda>(occ, c). Suc (Max (set occ)) - c)"
    by simp
qed

text \<open>An entry of \<open>activeEvents\<close> is the triple \<open>(endPos, column, index)\<close>.
  The first pass walks the sorted events; \<open>i\<close> is the loop index.\<close>

type_synonym activeEvent = "real \<times> nat \<times> nat"

primrec firstPass :: "(CalendarEvent \<times> real \<times> real) list \<Rightarrow> activeEvent list \<Rightarrow> nat \<Rightarrow> EventWithLayout list" where
  "firstPass [] activeEvents i = []"
| "firstPass (p # rest) activeEvents i =
     (let ev = fst p; tp = fst (snd p); ht = snd (snd p);
          endPos = tp + ht;
          stillActive = filter (\<lambda>ae. fst ae > tp) activeEvents;
          occupiedColumns = map (\<lambda>ae. fst (snd ae)) stillActive;
          col = firstFreeColumn occupiedColumns 0;
          stillActive' = stillActive @ [(endPos, col, i)]
      in \<lparr>event = ev, top_pos = tp, height = ht, column = col, totalColumns = 1\<rparr>
           # firstPass rest stillActive' (Suc i))"

definition overlapAt :: "EventWithLayout list \<Rightarrow> nat \<Rightarrow> nat \<Rightarrow> bool" where
  "overlapAt result i j =
     eventsOverlap (top_pos (result ! i)) (top_pos (result ! i) + height (result ! i))
                   (top_pos (result ! j)) (top_pos (result ! j) + height (result ! j))"

text \<open>Second pass: the inner loop over \<open>j\<close> computes \<open>maxColumn\<close> for the element at \<open>i\<close>;
  the outer loop stores \<open>maxColumn + 1\<close> into the element in place.\<close>

definition maxColumnAt :: "EventWithLayout list \<Rightarrow> nat \<Rightarrow> nat" where
  "maxColumnAt result i =
     fold (\<lambda>j maxColumn.
             if i = j then maxColumn
             else if overlapAt result i j then max maxColumn (column (result ! j))
             else maxColumn)
          [0..<length result] (column (result ! i))"

definition secondPass :: "EventWithLayout list \<Rightarrow> EventWithLayout list" where
  "secondPass result =
     fold (\<lambda>i res. res[i := (res ! i)\<lparr>totalColumns := maxColumnAt res i + 1\<rparr>])
          [0..<length result] result"

text \<open>Third pass: one iteration of the body of the nested iteration, on the array and the
  flag \<open>changed\<close>; then one full sweep; then the \<open>while (changed)\<close> loop.\<close>

definition thirdPassStep :: "nat \<Rightarrow> nat \<Rightarrow> EventWithLayout list \<times> bool \<Rightarrow> EventWithLayout list \<times> bool" where
  "thirdPassStep i j st =
     (let result = fst st; changed = snd st in
      if i = j then st
      else if overlapAt result i j then
        (let maxCols = max (totalColumns (result ! i)) (totalColumns (result ! j)) in
         if totalColumns (result ! i) \<noteq> maxCols \<or> totalColumns (result ! j) \<noteq> maxCols then
           ((result[i := (result ! i)\<lparr>totalColumns := maxCols\<rparr>])
               [j := (result ! j)\<lparr>totalColumns := maxCols\<rparr>], True)
         else st)
      else st)"

definition thirdPassSweep :: "EventWithLayout list \<Rightarrow> EventWithLayout list \<times> bool" where
  "thirdPassSweep result =
     fold (\<lambda>i st. fold (\<lambda>j st'. thirdPassStep i j st') [0..<length result] st)
          [0..<length result] (result, False)"


function thirdPassLoop :: "EventWithLayout list \<Rightarrow> EventWithLayout list" where
  "thirdPassLoop result =
     (let st = thirdPassSweep result in if snd st then thirdPassLoop (fst st) else fst st)"
  by pat_completeness auto

definition calculateEventLayout :: "CalendarEvent list \<Rightarrow> date \<Rightarrow> EventWithLayout list" where
  "calculateEventLayout events currentDate =
     (if events = [] then []
      else
        let eventsWithPos = map (\<lambda>ev. (ev, getEventPosition ev currentDate)) events;
            sorted = sort_key (\<lambda>p. fst (snd p)) eventsWithPos;
            result = firstPass sorted [] 0
        in thirdPassLoop (secondPass result))"

text \<open>The sorted, positioned events that the first pass walks.\<close>

definition positioned :: "CalendarEvent list \<Rightarrow> date \<Rightarrow> (CalendarEvent \<times> real \<times> real) list" where
  "positioned events currentDate =
     sort_key (\<lambda>p. fst (snd p)) (map (\<lambda>ev. (ev, getEventPosition ev currentDate)) events)"

text \<open>The rendered slice of a timed event (component \<open>TimedEvent\<close>), in percent of the row.\<close>

definition widthPercent :: "EventWithLayout \<Rightarrow> real" where
  "widthPercent l = 100 / real (totalColumns l)"

definition leftPercent :: "EventWithLayout \<Rightarrow> real" where
  "leftPercent l = real (column l) * widthPercent l"

text \<open>The overlap relation on the positions of a layout, and quantities used to reason about
  the passes: the bound and the measure of the third pass, the fields the later passes leave
  alone, and the second pass cut after \<open>m\<close> elements.\<close>

definition overlapRel :: "EventWithLayout list \<Rightarrow> (nat \<times> nat) set" where
  "overlapRel result =
     {(i, j). i < length result \<and> j < length result \<and> i \<noteq> j \<and> overlapAt result i j}"

definition sweepInv :: "nat \<Rightarrow> EventWithLayout list \<Rightarrow> EventWithLayout list \<times> bool \<Rightarrow> bool" where
  "sweepInv B rs0 st \<longleftrightarrow>
     length (fst st) = length rs0 \<and>
     (\<forall>k<length rs0. totalColumns (rs0 ! k) \<le> totalColumns (fst st ! k) \<and> totalColumns (fst st ! k) \<le> B) \<and>
     (snd st \<longrightarrow> (\<exists>k<length rs0. totalColumns (rs0 ! k) < totalColumns (fst st ! k)))"

definition maxTotalColumns :: "EventWithLayout list \<Rightarrow> nat" where
  "maxTotalColumns rs = Max (insert 0 (totalColumns ` set rs))"

definition slack :: "EventWithLayout list \<Rightarrow> nat" where
  "slack rs = (\<Sum>k<length rs. maxTotalColumns rs - totalColumns (rs ! k))"

definition sameSlots :: "EventWithLayout list \<Rightarrow> EventWithLayout list \<Rightarrow> bool" where
  "sameSlots rs0 rs \<longleftrightarrow>
     length rs = length rs0 \<and>
     (\<forall>k<length rs0. event (rs ! k) = event (rs0 ! k) \<and> top_pos (rs ! k) = top_pos (rs0 ! k) \<and>
        height (rs ! k) = height (rs0 ! k) \<and> column (rs ! k) = column (rs0 ! k))"

definition secondPassUpTo :: "nat \<Rightarrow> EventWithLayout list \<Rightarrow> EventWithLayout list" where
  "secondPassUpTo m result =
     fold (\<lambda>i res. res[i := (res ! i)\<lparr>totalColumns := maxColumnAt res i + 1\<rparr>]) [0..<m] result"

definition mkEvent :: "string \<Rightarrow> date \<Rightarrow> date option \<Rightarrow> CalendarEvent" where
  "mkEvent n s e = \<lparr>eventId = n, title = n, date = s, endDate = e, eventFile = n\<rparr>"


section \<open>Gantt view: window, position mapping, resize and drag\<close>

text \<open>A task as the hooks read it (the fields \<open>endDate\<close>, \<open>file\<close> and \<open>group\<close> of the
  source carry the prefix \<open>task\<close> here); \<open>group\<close> is absent for an ungrouped task.\<close>

record Task =
  taskId :: string
  taskTitle :: string
  startDate :: date
  taskEndDate :: date
  startDateProperty :: string
  endDateProperty :: string
  taskFile :: string
  taskGroup :: "string option"


text \<open>\<open>Math.min(...xs)\<close> and \<open>Math.max(...xs)\<close> on time values; \<open>None\<close> stands for the
  infinity returned for no argument, which \<open>new Date\<close> turns into an invalid date.\<close>

definition Math_min :: "int list \<Rightarrow> int option" where
  "Math_min xs = (case xs of [] \<Rightarrow> None | x # rest \<Rightarrow> Some (fold min rest x))"

definition Math_max :: "int list \<Rightarrow> int option" where
  "Math_max xs = (case xs of [] \<Rightarrow> None | x # rest \<Rightarrow> Some (fold max rest x))"

text \<open>\<open>calculateTimelineRange\<close> (dateCalculations.ts); the clock \<open>now\<close> is an argument, and
  the result is \<open>None\<close> when a bound would be an invalid date.\<close>

definition calculateTimelineRange :: "date \<Rightarrow> Task list \<Rightarrow> (date \<times> date) option" where
  "calculateTimelineRange now ts =
     (if length ts = 0 then Some (startOfMonth now, endOfMonth now)
      else
        let allDates = concat (map (\<lambda>t. [startDate t, taskEndDate t]) ts)
        in case (Math_min allDates, Math_max allDates) of
             (Some minDate, Some maxDate) \<Rightarrow> Some (startOfMonth minDate, endOfMonth maxDate)
           | _ \<Rightarrow> None)"

record TaskPosition =
  left :: real
  width :: real

definition calculateTaskPosition :: "date \<Rightarrow> date \<Rightarrow> date \<Rightarrow> date \<Rightarrow> TaskPosition" where
  "calculateTaskPosition taskStart taskEnd timelineStart timelineEnd =
     (let timelineSpan = differenceInDays timelineEnd timelineStart + 1;
          taskStartOffset = differenceInDays taskStart timelineStart;
          taskSpan = differenceInDays taskEnd taskStart + 1
      in \<lparr>left = (real_of_int taskStartOffset / real_of_int timelineSpan) * 100,
          width = (real_of_int taskSpan / real_of_int timelineSpan) * 100\<rparr>)"

definition calculateDateFromDelta :: "date \<Rightarrow> real \<Rightarrow> real \<Rightarrow> date" where
  "calculateDateFromDelta originalDate pixelDelta pixelsPerDay =
     (let daysDelta = Math_round (pixelDelta / pixelsPerDay)
      in addDays originalDate daysDelta)"

text \<open>\<open>getPixelsPerDay\<close> (useTaskResize.ts, useTaskDrag.ts): the measured chart width is
  \<open>None\<close> when the chart is not mounted; a missing or zero width falls back to 1000.\<close>

definition getPixelsPerDay :: "date \<Rightarrow> date \<Rightarrow> real option \<Rightarrow> real" where
  "getPixelsPerDay timelineStart timelineEnd measuredWidth =
     (let totalDays = differenceInDays timelineEnd timelineStart + 1;
          chartWidth = (case measuredWidth of None \<Rightarrow> 1000 | Some w \<Rightarrow> if w = 0 then 1000 else w)
      in chartWidth / real_of_int totalDays)"

text \<open>\<open>useTaskResize\<close>: the mouse-move handler of one resize gesture. \<open>task\<close>, \<open>handle\<close>,
  \<open>startX\<close> and \<open>pixelsPerDay\<close> are captured at mouse-down. The handler returns the
  property writes it issues and the new value of \<open>hadMovementRef\<close>. The model's division
  is JavaScript's for a divisor other than zero.\<close>

definition taskResize_handleMouseMove ::
  "Task \<Rightarrow> handle \<Rightarrow> real \<Rightarrow> real \<Rightarrow> bool \<Rightarrow> real \<Rightarrow> propertyWrite list \<times> bool" where
  "taskResize_handleMouseMove task hdl startX pixelsPerDay hadMovement clientX =
     (let deltaX = clientX - startX;
          hadMovement' = (if \<bar>deltaX\<bar> > 3 then True else hadMovement);
          originalDate = (if hdl = HandleStart then startDate task else taskEndDate task);
          newDate = calculateDateFromDelta originalDate deltaX pixelsPerDay;
          propertyName = (if hdl = HandleStart then startDateProperty task else endDateProperty task)
      in if newDate \<noteq> originalDate then
           if hdl = HandleStart \<and> newDate \<ge> taskEndDate task then ([], hadMovement')
           else if hdl = HandleEnd \<and> newDate \<le> startDate task then ([], hadMovement')
           else ([(taskFile task, propertyName, toISOString newDate)], hadMovement')
         else ([], hadMovement'))"

text \<open>All the writes of one resize gesture: mouse-down resets \<open>hadMovementRef\<close>, each
  move appends its writes, and mouse-up writes nothing.\<close>

definition taskResize_gesture :: "Task \<Rightarrow> handle \<Rightarrow> real \<Rightarrow> real \<Rightarrow> real list \<Rightarrow> propertyWrite list" where
  "taskResize_gesture task hdl startX pixelsPerDay moves =
     fst (fold (\<lambda>clientX st.
                  let r = taskResize_handleMouseMove task hdl startX pixelsPerDay (snd st) clientX
                  in (fst st @ fst r, snd r))
               moves ([], False))"





text \<open>The mouse-move handler of \<open>useTaskDrag\<close>: both date properties are written on every move.\<close>

definition taskDrag_handleMouseMove :: "Task \<Rightarrow> real \<Rightarrow> real \<Rightarrow> real \<Rightarrow> propertyWrite list" where
  "taskDrag_handleMouseMove task startX pixelsPerDay clientX =
     (let deltaX = clientX - startX;
          newStartDate = calculateDateFromDelta (startDate task) deltaX pixelsPerDay;
          newEndDate = calculateDateFromDelta (taskEndDate task) deltaX pixelsPerDay
      in [(taskFile task, startDateProperty task, toISOString newStartDate),
          (taskFile task, endDateProperty task, toISOString newEndDate)])"

section \<open>Calendar: event resize and drag hooks\<close>

text \<open>\<open>getDayWidth\<close>: a seventh of the container, or 100 when the container is not mounted.
  The moves divide by it; the model's division is JavaScript's for a day width other than
  zero.\<close>

definition getDayWidth :: "real option \<Rightarrow> real" where
  "getDayWidth containerWidth = (case containerWidth of None \<Rightarrow> 100 | Some w \<Rightarrow> w / 7)"

text \<open>\<open>useEventResize\<close>: the state of one resize gesture. The first five fields are the
  constants captured at mouse-down; \<open>currentDeltaDays\<close> is the closure variable,
  \<open>previewDelta\<close> the React state shown as the phantom, \<open>hadMovementRef\<close> the click guard.\<close>

record EventResize =
  resizeHandle :: handle
  resizeStartX :: real
  originalStartDate :: date
  originalEndDate :: date
  resizeDayWidth :: real
  resizeDeltaDays :: int
  resizePreviewDelta :: "(handle \<times> int) option"
  resizeHadMovement :: bool

definition eventResize_handleResizeStart :: "CalendarEvent \<Rightarrow> handle \<Rightarrow> real \<Rightarrow> real option \<Rightarrow> EventResize" where
  "eventResize_handleResizeStart ev hdl clientX containerWidth =
     \<lparr>resizeHandle = hdl, resizeStartX = clientX,
      originalStartDate = date ev,
      originalEndDate = (case endDate ev of Some e \<Rightarrow> e | None \<Rightarrow> date ev),
      resizeDayWidth = getDayWidth containerWidth,
      resizeDeltaDays = 0, resizePreviewDelta = None, resizeHadMovement = False\<rparr>"

definition eventResize_handleMouseMove :: "EventResize \<Rightarrow> real \<Rightarrow> EventResize" where
  "eventResize_handleMouseMove s clientX =
     (let deltaX = clientX - resizeStartX s;
          days = Math_round (deltaX / resizeDayWidth s)
      in s\<lparr>resizeDeltaDays := days,
           resizeHadMovement := (if \<bar>deltaX\<bar> > 5 then True else resizeHadMovement s),
           resizePreviewDelta := Some (resizeHandle s, days)\<rparr>)"

definition eventResize_handleMouseUp :: "CalendarEvent \<Rightarrow> string \<Rightarrow> string \<Rightarrow> EventResize \<Rightarrow> propertyWrite list" where
  "eventResize_handleMouseUp ev dateProperty endDateProp s =
     (if resizeDeltaDays s \<noteq> 0 then
        if resizeHandle s = HandleStart then
          let newStartDate = addDays (originalStartDate s) (resizeDeltaDays s)
          in if newStartDate \<le> originalEndDate s
             then [(eventFile ev, dateProperty, formatDateString newStartDate)] else []
        else
          let newEndDate = addDays (originalEndDate s) (resizeDeltaDays s)
          in if newEndDate \<ge> originalStartDate s
             then [(eventFile ev, endDateProp, formatDateString newEndDate)] else []
      else [])"

definition eventResize_gesture ::
  "CalendarEvent \<Rightarrow> string \<Rightarrow> string \<Rightarrow> handle \<Rightarrow> real option \<Rightarrow> real \<Rightarrow> real list \<Rightarrow> propertyWrite list" where
  "eventResize_gesture ev dateProperty endDateProp hdl containerWidth clientX moves =
     eventResize_handleMouseUp ev dateProperty endDateProp
       (fold (\<lambda>x s. eventResize_handleMouseMove s x) moves
          (eventResize_handleResizeStart ev hdl clientX containerWidth))"

text \<open>\<open>useMultiDayEventDrag\<close>: \<open>dragStartRef\<close> holds \<open>(x, startDate, endDate)\<close> between
  mouse-down and mouse-up.\<close>

record MultiDayDrag =
  dragStartRef :: "(real \<times> date \<times> date) option"
  dragDayWidth :: real
  dragDeltaDays :: int
  dragPreviewDelta :: int
  dragHadMovement :: bool

text \<open>Mouse-down: a button other than the primary one starts nothing.\<close>

definition multiDayDrag_handleDragStart :: "CalendarEvent \<Rightarrow> nat \<Rightarrow> real \<Rightarrow> real option \<Rightarrow> MultiDayDrag option" where
  "multiDayDrag_handleDragStart ev button clientX containerWidth =
     (if button \<noteq> 0 then None
      else
        let startDate' = date ev;
            endDate' = (case endDate ev of Some e \<Rightarrow> e | None \<Rightarrow> date ev)
        in Some \<lparr>dragStartRef = Some (clientX, startDate', endDate'),
                  dragDayWidth = getDayWidth containerWidth,
                  dragDeltaDays = 0, dragPreviewDelta = 0, dragHadMovement = False\<rparr>)"

definition multiDayDrag_handleMouseMove :: "MultiDayDrag \<Rightarrow> real \<Rightarrow> MultiDayDrag" where
  "multiDayDrag_handleMouseMove s clientX =
     (case dragStartRef s of
        None \<Rightarrow> s
      | Some ref \<Rightarrow>
          let deltaX = clientX - fst ref;
              days = Math_round (deltaX / dragDayWidth s)
          in s\<lparr>dragDeltaDays := days,
               dragHadMovement := (if \<bar>deltaX\<bar> > 5 then True else dragHadMovement s),
               dragPreviewDelta := days\<rparr>)"

text \<open>Mouse-up returns the writes and the state after the reset.\<close>

definition multiDayDrag_handleMouseUp ::
  "CalendarEvent \<Rightarrow> string \<Rightarrow> string \<Rightarrow> MultiDayDrag \<Rightarrow> propertyWrite list \<times> MultiDayDrag" where
  "multiDayDrag_handleMouseUp ev dateProperty endDateProp s =
     (let writes =
            (case dragStartRef s of
               None \<Rightarrow> []
             | Some ref \<Rightarrow>
                 if dragDeltaDays s \<noteq> 0 then
                   let newStartDate = addDays (fst (snd ref)) (dragDeltaDays s);
                       newEndDate = addDays (snd (snd ref)) (dragDeltaDays s)
                   in [(eventFile ev, dateProperty, formatDateString newStartDate),
                       (eventFile ev, endDateProp, formatDateString newEndDate)]
                 else [])
      in (writes, s\<lparr>dragPreviewDelta := 0, dragStartRef := None\<rparr>))"

definition multiDayDrag_gesture ::
  "CalendarEvent \<Rightarrow> string \<Rightarrow> string \<Rightarrow> nat \<Rightarrow> real option \<Rightarrow> real \<Rightarrow> real list \<Rightarrow> propertyWrite list" where
  "multiDayDrag_gesture ev dateProperty endDateProp button containerWidth clientX moves =
     (case multiDayDrag_handleDragStart ev button clientX containerWidth of
        None \<Rightarrow> []
      | Some s0 \<Rightarrow>
          fst (multiDayDrag_handleMouseUp ev dateProperty endDateProp
                 (fold (\<lambda>x s. multiDayDrag_handleMouseMove s x) moves s0)))"

text \<open>\<open>useEventDrag\<close>: the drop handler. \<open>over\<close> is the id of the day cell under the pointer
  (a \<open>YYYY-MM-DD\<close> string) or \<open>None\<close>; \<open>parseISO\<close> does not throw and its result is unused.\<close>

definition eventDrag_handleDragEnd ::
  "CalendarEvent list \<Rightarrow> string \<Rightarrow> string \<Rightarrow> string option \<Rightarrow> propertyWrite list" where
  "eventDrag_handleDragEnd events dateProperty activeId over =
     (case over of
        None \<Rightarrow> []
      | Some newDateString \<Rightarrow>
          (case find (\<lambda>e. eventId e = activeId) events of
             None \<Rightarrow> []
           | Some calendarEvent \<Rightarrow>
               let oldDateString = formatDateString (date calendarEvent)
               in if oldDateString \<noteq> newDateString
                  then [(eventFile calendarEvent, dateProperty, newDateString)] else []))"


section \<open>Auxiliary definitions\<close>

text \<open>The day delta held by \<open>currentDeltaDays\<close> at mouse-up, in terms of the pointer
  positions of the gesture: zero without a move, else the rounded distance of the last move.\<close>

definition accumulatedDelta :: "real \<Rightarrow> real \<Rightarrow> real list \<Rightarrow> int" where
  "accumulatedDelta dayWidth clientX moves =
     (if moves = [] then 0 else Math_round ((last moves - clientX) / dayWidth))"

text \<open>Values for concrete scenarios.\<close>

definition mkTask :: "string \<Rightarrow> date \<Rightarrow> date \<Rightarrow> string option \<Rightarrow> Task" where
  "mkTask n s e g = \<lparr>taskId = n, taskTitle = n, startDate = s, taskEndDate = e,
     startDateProperty = ''start'', endDateProperty = ''end'', taskFile = n, taskGroup = g\<rparr>"


section \<open>The overlap layout: termination and invariants of the passes\<close>


lemma fold_invariant:
  assumes "P s" and "\<And>x s. x \<in> set xs \<Longrightarrow> P s \<Longrightarrow> P (f x s)"
  shows "P (fold f xs s)"
  using assms by (induction xs arbitrary: s) auto

lemma thirdPassStep_sweepInv:
  assumes "sweepInv B rs0 st" "i < length rs0" "j < length rs0"
  shows "sweepInv B rs0 (thirdPassStep i j st)"
proof (cases "i \<noteq> j \<and> overlapAt (fst st) i j \<and> totalColumns (fst st ! i) \<noteq> totalColumns (fst st ! j)")
  case False
  then have "thirdPassStep i j st = st"
    by (auto simp: thirdPassStep_def Let_def)
  with assms show ?thesis by simp
next
  case True
  define m where "m = max (totalColumns (fst st ! i)) (totalColumns (fst st ! j))"
  define rs' where "rs' = ((fst st)[i := (fst st ! i)\<lparr>totalColumns := m\<rparr>])[j := (fst st ! j)\<lparr>totalColumns := m\<rparr>]"
  from True have eq: "thirdPassStep i j st = (rs', True)"
    by (auto simp: thirdPassStep_def Let_def rs'_def m_def)
  have len: "length (fst st) = length rs0"
    using assms(1) by (simp add: sweepInv_def)
  have tc: "totalColumns (rs' ! k) = (if k = i \<or> k = j then m else totalColumns (fst st ! k))"
    if "k < length rs0" for k
    using that len assms(2,3) by (simp add: rs'_def nth_list_update)
  have bnd: "totalColumns (rs0 ! k) \<le> totalColumns (fst st ! k) \<and> totalColumns (fst st ! k) \<le> B"
    if "k < length rs0" for k
    using that assms(1) by (simp add: sweepInv_def)
  have "m \<le> B"
    using bnd[OF assms(2)] bnd[OF assms(3)] by (simp add: m_def)
  moreover have "totalColumns (fst st ! i) \<le> m" "totalColumns (fst st ! j) \<le> m"
    by (simp_all add: m_def)
  moreover have "totalColumns (fst st ! i) < m \<or> totalColumns (fst st ! j) < m"
    using True by (auto simp: m_def)
  ultimately have m: "m \<le> B" "totalColumns (fst st ! i) \<le> m" "totalColumns (fst st ! j) \<le> m"
    "totalColumns (fst st ! i) < m \<or> totalColumns (fst st ! j) < m"
    by blast+
  have A: "totalColumns (rs0 ! k) \<le> totalColumns (rs' ! k) \<and> totalColumns (rs' ! k) \<le> B"
    if k: "k < length rs0" for k
  proof (cases "k = i \<or> k = j")
    case True
    then have "totalColumns (rs' ! k) = m" using tc[OF k] by simp
    moreover have "totalColumns (rs0 ! k) \<le> m"
      using True bnd[OF k] m(2,3) by auto
    ultimately show ?thesis using m(1) by simp
  next
    case False
    then show ?thesis using tc[OF k] bnd[OF k] by simp
  qed
  have Bx: "\<exists>k<length rs0. totalColumns (rs0 ! k) < totalColumns (rs' ! k)"
  proof -
    from m(4) show ?thesis
    proof
      assume "totalColumns (fst st ! i) < m"
      then have "totalColumns (rs0 ! i) < totalColumns (rs' ! i)"
        using bnd[OF assms(2)] tc[OF assms(2)] by simp
      then show ?thesis using assms(2) by blast
    next
      assume "totalColumns (fst st ! j) < m"
      then have "totalColumns (rs0 ! j) < totalColumns (rs' ! j)"
        using bnd[OF assms(3)] tc[OF assms(3)] by simp
      then show ?thesis using assms(3) by blast
    qed
  qed
  note A Bx
  moreover have "length rs' = length rs0"
    by (simp add: rs'_def len)
  ultimately show ?thesis
    by (simp add: eq sweepInv_def)
qed


lemma thirdPassSweep_sweepInv:
  assumes "\<forall>k<length rs. totalColumns (rs ! k) \<le> B"
  shows "sweepInv B rs (thirdPassSweep rs)"
  unfolding thirdPassSweep_def
proof (rule fold_invariant)
  show "sweepInv B rs (rs, False)"
    using assms by (simp add: sweepInv_def)
next
  fix i st
  assume i: "i \<in> set [0..<length rs]" and st: "sweepInv B rs st"
  show "sweepInv B rs (fold (\<lambda>j st'. thirdPassStep i j st') [0..<length rs] st)"
  proof (rule fold_invariant)
    show "sweepInv B rs st" by (rule st)
  next
    fix j st'
    assume "j \<in> set [0..<length rs]" and "sweepInv B rs st'"
    with i show "sweepInv B rs (thirdPassStep i j st')"
      by (simp add: thirdPassStep_sweepInv)
  qed
qed

lemma totalColumns_le_max: "k < length rs \<Longrightarrow> totalColumns (rs ! k) \<le> maxTotalColumns rs"
  by (simp add: maxTotalColumns_def)

lemma maxTotalColumns_le:
  assumes "\<forall>k<length rs. totalColumns (rs ! k) \<le> B"
  shows "maxTotalColumns rs \<le> B"
proof -
  have "\<forall>r\<in>set rs. totalColumns r \<le> B"
    using assms by (auto simp: in_set_conv_nth)
  then show ?thesis
    by (simp add: maxTotalColumns_def)
qed

lemma thirdPassSweep_slack:
  assumes "snd (thirdPassSweep rs)"
  shows "slack (fst (thirdPassSweep rs)) < slack rs"
proof -
  define rs' where "rs' = fst (thirdPassSweep rs)"
  define M where "M = maxTotalColumns rs"
  have inv: "sweepInv M rs (thirdPassSweep rs)"
    by (rule thirdPassSweep_sweepInv) (simp add: M_def totalColumns_le_max)
  have len: "length rs' = length rs"
    using inv by (simp add: sweepInv_def rs'_def)
  have mono: "totalColumns (rs ! k) \<le> totalColumns (rs' ! k)" and bnd: "totalColumns (rs' ! k) \<le> M"
    if "k < length rs" for k
    using inv that by (simp_all add: sweepInv_def rs'_def)
  obtain k0 where k0: "k0 < length rs" "totalColumns (rs ! k0) < totalColumns (rs' ! k0)"
    using inv assms by (auto simp: sweepInv_def rs'_def)
  have M': "maxTotalColumns rs' \<le> M"
    by (rule maxTotalColumns_le) (simp add: len bnd)
  have "slack rs' = (\<Sum>k<length rs. maxTotalColumns rs' - totalColumns (rs' ! k))"
    by (simp add: slack_def len)
  also have "\<dots> < (\<Sum>k<length rs. M - totalColumns (rs ! k))"
  proof (rule sum_strict_mono_ex1)
    show "finite {..<length rs}" by simp
    show "\<forall>k\<in>{..<length rs}. maxTotalColumns rs' - totalColumns (rs' ! k) \<le> M - totalColumns (rs ! k)"
    proof
      fix k assume "k \<in> {..<length rs}"
      then have "totalColumns (rs ! k) \<le> totalColumns (rs' ! k)"
        using mono by simp
      with M' show "maxTotalColumns rs' - totalColumns (rs' ! k) \<le> M - totalColumns (rs ! k)"
        by linarith
    qed
    have "maxTotalColumns rs' - totalColumns (rs' ! k0) < M - totalColumns (rs ! k0)"
      using M' k0 bnd[OF k0(1)] by linarith
    then show "\<exists>k\<in>{..<length rs}. maxTotalColumns rs' - totalColumns (rs' ! k) < M - totalColumns (rs ! k)"
      using k0(1) by blast
  qed
  finally show ?thesis
    by (simp add: slack_def M_def rs'_def)
qed

termination thirdPassLoop
proof (relation "measure slack")
  show "wf (measure slack)" by simp
next
  fix result st
  assume "st = thirdPassSweep result" "snd st"
  then show "(fst st, result) \<in> measure slack"
    by (simp add: thirdPassSweep_slack)
qed

declare thirdPassLoop.simps [simp del]
declare firstFreeColumn.simps [simp del]


lemma sameSlots_refl: "sameSlots rs rs"
  by (simp add: sameSlots_def)

lemma sameSlots_trans:
  assumes "sameSlots a b" "sameSlots b c"
  shows "sameSlots a c"
proof -
  have len: "length b = length a" "length c = length b"
    using assms by (simp_all add: sameSlots_def)
  have "event (c ! k) = event (a ! k) \<and> top_pos (c ! k) = top_pos (a ! k) \<and>
        height (c ! k) = height (a ! k) \<and> column (c ! k) = column (a ! k)" if "k < length a" for k
  proof -
    have 1: "event (b ! k) = event (a ! k) \<and> top_pos (b ! k) = top_pos (a ! k) \<and>
        height (b ! k) = height (a ! k) \<and> column (b ! k) = column (a ! k)"
      using assms(1) that unfolding sameSlots_def by blast
    have 2: "event (c ! k) = event (b ! k) \<and> top_pos (c ! k) = top_pos (b ! k) \<and>
        height (c ! k) = height (b ! k) \<and> column (c ! k) = column (b ! k)"
      using assms(2) that len unfolding sameSlots_def by simp
    from 1 2 show ?thesis by simp
  qed
  then show ?thesis
    unfolding sameSlots_def using len by simp
qed

lemma nth_setTotalColumns:
  "event (rs[i := (rs ! i)\<lparr>totalColumns := m\<rparr>] ! k) = event (rs ! k)"
  "top_pos (rs[i := (rs ! i)\<lparr>totalColumns := m\<rparr>] ! k) = top_pos (rs ! k)"
  "height (rs[i := (rs ! i)\<lparr>totalColumns := m\<rparr>] ! k) = height (rs ! k)"
  "column (rs[i := (rs ! i)\<lparr>totalColumns := m\<rparr>] ! k) = column (rs ! k)"
proof -
  show "event (rs[i := (rs ! i)\<lparr>totalColumns := m\<rparr>] ! k) = event (rs ! k)"
    by (cases "i < length rs"; cases "i = k"; simp add: list_update_beyond)
  show "top_pos (rs[i := (rs ! i)\<lparr>totalColumns := m\<rparr>] ! k) = top_pos (rs ! k)"
    by (cases "i < length rs"; cases "i = k"; simp add: list_update_beyond)
  show "height (rs[i := (rs ! i)\<lparr>totalColumns := m\<rparr>] ! k) = height (rs ! k)"
    by (cases "i < length rs"; cases "i = k"; simp add: list_update_beyond)
  show "column (rs[i := (rs ! i)\<lparr>totalColumns := m\<rparr>] ! k) = column (rs ! k)"
    by (cases "i < length rs"; cases "i = k"; simp add: list_update_beyond)
qed

lemma sameSlots_update:
  assumes "sameSlots rs0 rs"
    and "event r = event (rs ! i)" "top_pos r = top_pos (rs ! i)"
        "height r = height (rs ! i)" "column r = column (rs ! i)"
  shows "sameSlots rs0 (rs[i := r])"
  unfolding sameSlots_def
proof (intro conjI allI impI)
  show "length (rs[i := r]) = length rs0"
    using assms(1) by (simp add: sameSlots_def)
next
  fix k assume k: "k < length rs0"
  then have kk: "k < length rs"
    using assms(1) by (simp add: sameSlots_def)
  have old: "event (rs ! k) = event (rs0 ! k)" "top_pos (rs ! k) = top_pos (rs0 ! k)"
    "height (rs ! k) = height (rs0 ! k)" "column (rs ! k) = column (rs0 ! k)"
    using assms(1) k by (simp_all add: sameSlots_def)
  show "event (rs[i := r] ! k) = event (rs0 ! k)"
    using old(1) assms(2) kk by (cases "i = k") simp_all
  show "top_pos (rs[i := r] ! k) = top_pos (rs0 ! k)"
    using old(2) assms(3) kk by (cases "i = k") simp_all
  show "height (rs[i := r] ! k) = height (rs0 ! k)"
    using old(3) assms(4) kk by (cases "i = k") simp_all
  show "column (rs[i := r] ! k) = column (rs0 ! k)"
    using old(4) assms(5) kk by (cases "i = k") simp_all
qed

lemma sameSlots_overlapAt:
  "sameSlots rs0 rs \<Longrightarrow> i < length rs0 \<Longrightarrow> j < length rs0 \<Longrightarrow> overlapAt rs i j = overlapAt rs0 i j"
  by (simp add: sameSlots_def overlapAt_def)

lemma thirdPassStep_noop:
  assumes "\<not> (i \<noteq> j \<and> overlapAt (fst st) i j \<and> totalColumns (fst st ! i) \<noteq> totalColumns (fst st ! j))"
  shows "thirdPassStep i j st = st"
  using assms by (auto simp: thirdPassStep_def Let_def)

lemma thirdPassStep_changed:
  assumes "i \<noteq> j \<and> overlapAt (fst st) i j \<and> totalColumns (fst st ! i) \<noteq> totalColumns (fst st ! j)"
  shows "snd (thirdPassStep i j st)"
  using assms by (auto simp: thirdPassStep_def Let_def)

lemma thirdPassStep_upd:
  assumes "i \<noteq> j \<and> overlapAt (fst st) i j \<and> totalColumns (fst st ! i) \<noteq> totalColumns (fst st ! j)"
  shows "thirdPassStep i j st =
    (((fst st)[i := (fst st ! i)\<lparr>totalColumns := max (totalColumns (fst st ! i)) (totalColumns (fst st ! j))\<rparr>])
        [j := (fst st ! j)\<lparr>totalColumns := max (totalColumns (fst st ! i)) (totalColumns (fst st ! j))\<rparr>], True)"
  using assms by (auto simp: thirdPassStep_def Let_def)

lemma thirdPassStep_sameSlots:
  assumes "sameSlots rs0 (fst st)"
  shows "sameSlots rs0 (fst (thirdPassStep i j st))"
proof (cases "i \<noteq> j \<and> overlapAt (fst st) i j \<and> totalColumns (fst st ! i) \<noteq> totalColumns (fst st ! j)")
  case False
  then have "thirdPassStep i j st = st"
    by (rule thirdPassStep_noop)
  with assms show ?thesis by simp
next
  case True
  define m where "m = max (totalColumns (fst st ! i)) (totalColumns (fst st ! j))"
  let ?a = "(fst st)[i := (fst st ! i)\<lparr>totalColumns := m\<rparr>]"
  have a: "sameSlots rs0 ?a"
    using assms by (rule sameSlots_update) simp_all
  have "sameSlots rs0 (?a[j := (fst st ! j)\<lparr>totalColumns := m\<rparr>])"
    using a by (rule sameSlots_update) (simp_all add: nth_setTotalColumns)
  moreover have "fst (thirdPassStep i j st) = ?a[j := (fst st ! j)\<lparr>totalColumns := m\<rparr>]"
    unfolding m_def using thirdPassStep_upd[OF True] by simp
  ultimately show ?thesis by simp
qed

lemma thirdPassSweep_sameSlots: "sameSlots rs (fst (thirdPassSweep rs))"
  unfolding thirdPassSweep_def
proof (rule fold_invariant[where P = "\<lambda>st. sameSlots rs (fst st)"])
  show "sameSlots rs (fst (rs, False))" by (simp add: sameSlots_refl)
next
  fix i and st :: "EventWithLayout list \<times> bool"
  assume "sameSlots rs (fst st)"
  then show "sameSlots rs (fst (fold (\<lambda>j st'. thirdPassStep i j st') [0..<length rs] st))"
    by (rule fold_invariant[where P = "\<lambda>st. sameSlots rs (fst st)"]) (rule thirdPassStep_sameSlots)
qed

lemma thirdPassStep_unchanged:
  assumes "\<not> snd (thirdPassStep i j st)"
  shows "thirdPassStep i j st = st \<and>
         (i \<noteq> j \<and> overlapAt (fst st) i j \<longrightarrow> totalColumns (fst st ! i) = totalColumns (fst st ! j))"
proof -
  have c: "\<not> (i \<noteq> j \<and> overlapAt (fst st) i j \<and> totalColumns (fst st ! i) \<noteq> totalColumns (fst st ! j))"
    using assms thirdPassStep_changed by blast
  then have "thirdPassStep i j st = st"
    by (rule thirdPassStep_noop)
  with c show ?thesis by blast
qed

lemma fold_unchanged:
  assumes "\<And>x s. x \<in> set xs \<Longrightarrow> \<not> snd (f x s) \<Longrightarrow> f x s = s \<and> R x (fst s)"
    and "\<not> snd (fold f xs s)"
  shows "fold f xs s = s \<and> (\<forall>x\<in>set xs. R x (fst s))"
  using assms
proof (induction xs arbitrary: s)
  case Nil
  then show ?case by simp
next
  case (Cons x xs)
  have ih: "fold f xs (f x s) = f x s \<and> (\<forall>y\<in>set xs. R y (fst (f x s)))"
    using Cons.prems by (intro Cons.IH) auto
  then have "\<not> snd (f x s)"
    using Cons.prems(2) by simp
  then have "f x s = s \<and> R x (fst s)"
    using Cons.prems(1) by simp
  with ih show ?case by simp
qed

lemma thirdPassSweep_unchanged:
  assumes "\<not> snd (thirdPassSweep rs)"
  shows "fst (thirdPassSweep rs) = rs \<and>
         (\<forall>i<length rs. \<forall>j<length rs. i \<noteq> j \<and> overlapAt rs i j \<longrightarrow>
            totalColumns (rs ! i) = totalColumns (rs ! j))"
proof -
  let ?inner = "\<lambda>i st. fold (\<lambda>j st'. thirdPassStep i j st') [0..<length rs] st"
  let ?R = "\<lambda>i res. \<forall>j\<in>set [0..<length rs]. i \<noteq> j \<and> overlapAt res i j \<longrightarrow>
              totalColumns (res ! i) = totalColumns (res ! j)"
  have inner: "?inner i st = st \<and> ?R i (fst st)" if h: "\<not> snd (?inner i st)"
    for i and st :: "EventWithLayout list \<times> bool"
  proof (rule fold_unchanged[where f = "\<lambda>j st'. thirdPassStep i j st'"
          and R = "\<lambda>j res. i \<noteq> j \<and> overlapAt res i j \<longrightarrow> totalColumns (res ! i) = totalColumns (res ! j)"])
    show "\<not> snd (?inner i st)" by (rule h)
  next
    fix j and s :: "EventWithLayout list \<times> bool"
    assume "\<not> snd (thirdPassStep i j s)"
    then show "thirdPassStep i j s = s \<and>
       (i \<noteq> j \<and> overlapAt (fst s) i j \<longrightarrow> totalColumns (fst s ! i) = totalColumns (fst s ! j))"
      by (rule thirdPassStep_unchanged)
  qed
  have "fold ?inner [0..<length rs] (rs, False) = (rs, False) \<and>
        (\<forall>i\<in>set [0..<length rs]. ?R i (fst (rs, False)))"
  proof (rule fold_unchanged[where f = ?inner and R = ?R])
    show "\<not> snd (fold ?inner [0..<length rs] (rs, False))"
      using assms unfolding thirdPassSweep_def .
  next
    fix i and s :: "EventWithLayout list \<times> bool"
    assume "\<not> snd (?inner i s)"
    then show "?inner i s = s \<and> ?R i (fst s)"
      by (rule inner)
  qed
  then show ?thesis
    by (simp add: thirdPassSweep_def)
qed


lemma thirdPassLoop_sameSlots: "sameSlots rs (thirdPassLoop rs)"
proof (induction rs rule: thirdPassLoop.induct)
  case (1 result)
  show ?case
  proof (cases "snd (thirdPassSweep result)")
    case True
    then have "sameSlots (fst (thirdPassSweep result)) (thirdPassLoop (fst (thirdPassSweep result)))"
      using "1.IH" by simp
    with thirdPassSweep_sameSlots[of result]
    have "sameSlots result (thirdPassLoop (fst (thirdPassSweep result)))"
      by (rule sameSlots_trans)
    with True show ?thesis
      by (subst thirdPassLoop.simps) (simp add: Let_def)
  next
    case False
    with thirdPassSweep_sameSlots[of result] show ?thesis
      by (subst thirdPassLoop.simps) (simp add: Let_def)
  qed
qed

lemma thirdPassSweep_mono:
  assumes "k < length rs"
  shows "totalColumns (rs ! k) \<le> totalColumns (fst (thirdPassSweep rs) ! k)"
proof -
  have "sweepInv (maxTotalColumns rs) rs (thirdPassSweep rs)"
    by (rule thirdPassSweep_sweepInv) (simp add: totalColumns_le_max)
  with assms show ?thesis
    by (simp add: sweepInv_def)
qed

lemma thirdPassLoop_mono:
  "k < length rs \<Longrightarrow> totalColumns (rs ! k) \<le> totalColumns (thirdPassLoop rs ! k)"
proof (induction rs rule: thirdPassLoop.induct)
  case (1 result)
  show ?case
  proof (cases "snd (thirdPassSweep result)")
    case True
    have len: "length (fst (thirdPassSweep result)) = length result"
      using thirdPassSweep_sameSlots[of result] by (simp add: sameSlots_def)
    have "totalColumns (fst (thirdPassSweep result) ! k)
        \<le> totalColumns (thirdPassLoop (fst (thirdPassSweep result)) ! k)"
      using "1.IH"[OF refl True] "1.prems" len by simp
    moreover have "totalColumns (result ! k) \<le> totalColumns (fst (thirdPassSweep result) ! k)"
      using "1.prems" by (rule thirdPassSweep_mono)
    moreover have "thirdPassLoop result = thirdPassLoop (fst (thirdPassSweep result))"
      using True by (subst thirdPassLoop.simps) (simp add: Let_def)
    ultimately show ?thesis by simp
  next
    case False
    then have "thirdPassLoop result = fst (thirdPassSweep result)"
      by (subst thirdPassLoop.simps) (simp add: Let_def)
    then show ?thesis
      using "1.prems" by (simp add: thirdPassSweep_mono)
  qed
qed

lemma thirdPassLoop_fixpoint:
  "\<forall>i<length rs. \<forall>j<length rs. i \<noteq> j \<and> overlapAt (thirdPassLoop rs) i j \<longrightarrow>
      totalColumns (thirdPassLoop rs ! i) = totalColumns (thirdPassLoop rs ! j)"
proof (induction rs rule: thirdPassLoop.induct)
  case (1 result)
  show ?case
  proof (cases "snd (thirdPassSweep result)")
    case True
    have len: "length (fst (thirdPassSweep result)) = length result"
      using thirdPassSweep_sameSlots[of result] by (simp add: sameSlots_def)
    have "thirdPassLoop result = thirdPassLoop (fst (thirdPassSweep result))"
      using True by (subst thirdPassLoop.simps) (simp add: Let_def)
    then show ?thesis
      using "1.IH"[OF refl True] len by simp
  next
    case False
    then have eq: "thirdPassLoop result = fst (thirdPassSweep result)"
      by (subst thirdPassLoop.simps) (simp add: Let_def)
    from thirdPassSweep_unchanged[OF False] show ?thesis
      unfolding eq by simp
  qed
qed


lemma maxColumnAt_ge: "column (rs ! i) \<le> maxColumnAt rs i"
proof -
  have "m0 \<le> fold (\<lambda>j maxColumn.
             if i = j then maxColumn
             else if overlapAt rs i j then max maxColumn (column (rs ! j))
             else maxColumn) js m0" for js m0
  proof (induction js arbitrary: m0)
    case Nil
    show ?case by simp
  next
    case (Cons j js)
    let ?f = "\<lambda>j maxColumn.
             if i = j then maxColumn
             else if overlapAt rs i j then max maxColumn (column (rs ! j))
             else maxColumn"
    have "m0 \<le> ?f j m0" by simp
    also have "\<dots> \<le> fold ?f js (?f j m0)" by (rule Cons.IH)
    finally show ?case by simp
  qed
  then show ?thesis
    by (simp add: maxColumnAt_def)
qed

lemma secondPassUpTo_Suc:
  "secondPassUpTo (Suc m) rs =
     (secondPassUpTo m rs)[m := (secondPassUpTo m rs ! m)\<lparr>totalColumns := maxColumnAt (secondPassUpTo m rs) m + 1\<rparr>]"
  by (simp add: secondPassUpTo_def)

lemma secondPassUpTo_sameSlots: "sameSlots rs (secondPassUpTo m rs)"
proof (induction m)
  case 0
  show ?case by (simp add: secondPassUpTo_def sameSlots_refl)
next
  case (Suc m)
  show ?case
    unfolding secondPassUpTo_Suc using Suc by (rule sameSlots_update) simp_all
qed

lemma secondPassUpTo_columns:
  assumes "m \<le> length rs" "k < m"
  shows "column (secondPassUpTo m rs ! k) < totalColumns (secondPassUpTo m rs ! k)"
  using assms
proof (induction m)
  case 0
  then show ?case by simp
next
  case (Suc m)
  let ?r = "secondPassUpTo m rs"
  have len: "length ?r = length rs"
    using secondPassUpTo_sameSlots[of rs m] by (simp add: sameSlots_def)
  show ?case
  proof (cases "k = m")
    case True
    have "column (?r ! m) \<le> maxColumnAt ?r m"
      by (rule maxColumnAt_ge)
    then show ?thesis
      using True Suc.prems len by (simp add: secondPassUpTo_Suc)
  next
    case False
    then have "k < m" using Suc.prems by simp
    then have "column (?r ! k) < totalColumns (?r ! k)"
      using Suc.IH Suc.prems by simp
    then show ?thesis
      using False Suc.prems len by (simp add: secondPassUpTo_Suc)
  qed
qed

lemma secondPass_sameSlots: "sameSlots rs (secondPass rs)"
  using secondPassUpTo_sameSlots[of rs "length rs"]
  by (simp add: secondPass_def secondPassUpTo_def)

lemma secondPass_columns:
  "k < length rs \<Longrightarrow> column (secondPass rs ! k) < totalColumns (secondPass rs ! k)"
  using secondPassUpTo_columns[of "length rs" rs k]
  by (simp add: secondPass_def secondPassUpTo_def)

lemma firstFreeColumn_notin: "firstFreeColumn occ c \<notin> set occ"
proof (induction occ c rule: firstFreeColumn.induct)
  case (1 occupiedColumns col)
  show ?case
  proof (cases "col \<in> set occupiedColumns")
    case True
    then show ?thesis
      using "1.IH" by (subst firstFreeColumn.simps) simp
  next
    case False
    then show ?thesis
      by (subst firstFreeColumn.simps) simp
  qed
qed

lemma firstPass_length: "length (firstPass ps active i) = length ps"
  by (induction ps arbitrary: active i) (simp_all add: Let_def)

lemma firstPass_geometry:
  "k < length ps \<Longrightarrow>
     event (firstPass ps active i ! k) = fst (ps ! k) \<and>
     top_pos (firstPass ps active i ! k) = fst (snd (ps ! k)) \<and>
     height (firstPass ps active i ! k) = snd (snd (ps ! k)) \<and>
     totalColumns (firstPass ps active i ! k) = 1"
proof (induction ps arbitrary: active i k)
  case Nil
  then show ?case by simp
next
  case (Cons p ps)
  show ?case
  proof (cases k)
    case 0
    then show ?thesis by (simp add: Let_def)
  next
    case (Suc k')
    then have "k' < length ps" using Cons.prems by simp
    from Cons.IH[OF this] show ?thesis
      using Suc by (simp add: Let_def)
  qed
qed

lemma firstPass_avoids_active:
  assumes "sorted (map (\<lambda>p. fst (snd p)) ps)" "k < length ps"
    and "ae \<in> set active" "fst ae > fst (snd (ps ! k))"
  shows "column (firstPass ps active i ! k) \<noteq> fst (snd ae)"
  using assms
proof (induction ps arbitrary: active i k)
  case Nil
  then show ?case by simp
next
  case (Cons p ps)
  let ?still = "filter (\<lambda>ae. fst ae > fst (snd p)) active"
  let ?col = "firstFreeColumn (map (\<lambda>ae. fst (snd ae)) ?still) 0"
  let ?active' = "?still @ [(fst (snd p) + snd (snd p), ?col, i)]"
  have unfold: "firstPass (p # ps) active i =
      \<lparr>event = fst p, top_pos = fst (snd p), height = snd (snd p), column = ?col, totalColumns = 1\<rparr>
        # firstPass ps ?active' (Suc i)"
    by (simp add: Let_def)
  show ?case
  proof (cases k)
    case 0
    then have "ae \<in> set ?still"
      using Cons.prems by simp
    then have "fst (snd ae) \<in> set (map (\<lambda>ae. fst (snd ae)) ?still)"
      unfolding set_map by (rule imageI)
    moreover have "?col \<notin> set (map (\<lambda>ae. fst (snd ae)) ?still)"
      by (rule firstFreeColumn_notin)
    ultimately have "?col \<noteq> fst (snd ae)" by metis
    then show ?thesis
      using 0 unfold by simp
  next
    case (Suc k')
    have k': "k' < length ps" using Suc Cons.prems by simp
    have srt: "sorted (map (\<lambda>p. fst (snd p)) ps)"
      using Cons.prems(1) by simp
    have "fst (snd p) \<le> fst (snd (ps ! k'))"
      using Cons.prems(1) k' by simp
    then have "fst ae > fst (snd p)"
      using Cons.prems(4) Suc by simp
    then have "ae \<in> set ?active'"
      using Cons.prems(3) by simp
    moreover have "fst ae > fst (snd (ps ! k'))"
      using Cons.prems(4) Suc by simp
    ultimately have "column (firstPass ps ?active' (Suc i) ! k') \<noteq> fst (snd ae)"
      using Cons.IH[OF srt k'] by blast
    then show ?thesis
      using Suc unfold by simp
  qed
qed

lemma firstPass_distinct_columns:
  assumes "sorted (map (\<lambda>p. fst (snd p)) ps)" "j < k" "k < length ps"
    and "fst (snd (ps ! j)) + snd (snd (ps ! j)) > fst (snd (ps ! k))"
  shows "column (firstPass ps active i ! j) \<noteq> column (firstPass ps active i ! k)"
  using assms
proof (induction ps arbitrary: active i j k)
  case Nil
  then show ?case by simp
next
  case (Cons p ps)
  let ?still = "filter (\<lambda>ae. fst ae > fst (snd p)) active"
  let ?col = "firstFreeColumn (map (\<lambda>ae. fst (snd ae)) ?still) 0"
  let ?active' = "?still @ [(fst (snd p) + snd (snd p), ?col, i)]"
  have unfold: "firstPass (p # ps) active i =
      \<lparr>event = fst p, top_pos = fst (snd p), height = snd (snd p), column = ?col, totalColumns = 1\<rparr>
        # firstPass ps ?active' (Suc i)"
    by (simp add: Let_def)
  have srt: "sorted (map (\<lambda>p. fst (snd p)) ps)"
    using Cons.prems(1) by simp
  obtain k' where k: "k = Suc k'" "k' < length ps"
    using Cons.prems(2,3) by (cases k) auto
  show ?case
  proof (cases j)
    case 0
    have "(fst (snd p) + snd (snd p), ?col, i) \<in> set ?active'"
      by simp
    moreover have "fst (fst (snd p) + snd (snd p), ?col, i) > fst (snd (ps ! k'))"
      using Cons.prems(4) 0 k by simp
    ultimately have "column (firstPass ps ?active' (Suc i) ! k') \<noteq> fst (snd (fst (snd p) + snd (snd p), ?col, i))"
      using firstPass_avoids_active[OF srt k(2)] by blast
    then show ?thesis
      using 0 k unfold by simp
  next
    case (Suc j')
    have "column (firstPass ps ?active' (Suc i) ! j') \<noteq> column (firstPass ps ?active' (Suc i) ! k')"
      using Cons.IH[OF srt, of j' k'] Cons.prems(2,4) Suc k by simp
    then show ?thesis
      using Suc k unfold by simp
  qed
qed


section \<open>The overlap layout: the result of \<open>calculateEventLayout\<close>\<close>


lemma overlapAt_sym: "overlapAt rs i j = overlapAt rs j i"
  by (auto simp: overlapAt_def eventsOverlap_def)

lemma thirdPassLoop_Nil: "thirdPassLoop [] = []"
  by (subst thirdPassLoop.simps) (simp add: thirdPassSweep_def)

lemma calculateEventLayout_eq:
  "calculateEventLayout events currentDate =
     thirdPassLoop (secondPass (firstPass (positioned events currentDate) [] 0))"
  by (cases "events = []")
     (simp_all add: calculateEventLayout_def positioned_def Let_def secondPass_def thirdPassLoop_Nil)

lemma layout_sameSlots:
  "sameSlots (firstPass (positioned events currentDate) [] 0) (calculateEventLayout events currentDate)"
  unfolding calculateEventLayout_eq
  by (rule sameSlots_trans[OF secondPass_sameSlots thirdPassLoop_sameSlots])

lemma layout_length: "length (calculateEventLayout events currentDate) = length events"
  using layout_sameSlots[of events currentDate]
  by (simp add: sameSlots_def firstPass_length positioned_def)

lemma positioned_sorted: "sorted (map (\<lambda>p. fst (snd p)) (positioned events currentDate))"
  by (simp add: positioned_def)

lemma layout_distinct_columns_lt:
  assumes "i < j" "j < length events"
    and "overlapAt (calculateEventLayout events currentDate) i j"
  shows "column (calculateEventLayout events currentDate ! i) \<noteq> column (calculateEventLayout events currentDate ! j)"
proof -
  let ?ps = "positioned events currentDate"
  let ?fp = "firstPass ?ps [] 0"
  let ?L = "calculateEventLayout events currentDate"
  have len: "length ?ps = length events"
    by (simp add: positioned_def)
  have lenfp: "length ?fp = length events"
    by (simp add: firstPass_length len)
  have ss: "sameSlots ?fp ?L" by (rule layout_sameSlots)
  have ij: "i < length ?fp" "j < length ?fp"
    using assms(1,2) lenfp by simp_all
  have "overlapAt ?fp i j"
    using sameSlots_overlapAt[OF ss ij] assms(3) by simp
  then have "top_pos (?fp ! i) + height (?fp ! i) > top_pos (?fp ! j)"
    by (simp add: overlapAt_def eventsOverlap_def)
  moreover have "top_pos (?fp ! i) = fst (snd (?ps ! i))" "height (?fp ! i) = snd (snd (?ps ! i))"
    "top_pos (?fp ! j) = fst (snd (?ps ! j))"
    using firstPass_geometry[of i ?ps "[]" 0] firstPass_geometry[of j ?ps "[]" 0] assms(1,2) len
    by simp_all
  ultimately have "fst (snd (?ps ! i)) + snd (snd (?ps ! i)) > fst (snd (?ps ! j))"
    by simp
  then have "column (?fp ! i) \<noteq> column (?fp ! j)"
    using firstPass_distinct_columns[OF positioned_sorted assms(1), of events currentDate "[]" 0]
      assms(2) len by simp
  moreover have "column (?L ! i) = column (?fp ! i)" "column (?L ! j) = column (?fp ! j)"
    using ss ij by (simp_all add: sameSlots_def)
  ultimately show ?thesis by simp
qed

lemma layout_positions:
  assumes "k < length events"
  shows "(top_pos (calculateEventLayout events currentDate ! k), height (calculateEventLayout events currentDate ! k))
           = getEventPosition (event (calculateEventLayout events currentDate ! k)) currentDate"
proof -
  let ?ps = "positioned events currentDate"
  let ?fp = "firstPass ?ps [] 0"
  let ?L = "calculateEventLayout events currentDate"
  have len: "length ?ps = length events"
    by (simp add: positioned_def)
  have ss: "sameSlots ?fp ?L" by (rule layout_sameSlots)
  have k: "k < length ?fp" using assms by (simp add: firstPass_length len)
  have "?ps ! k \<in> set ?ps" using assms len by simp
  then have "snd (?ps ! k) = getEventPosition (fst (?ps ! k)) currentDate"
    by (auto simp: positioned_def)
  moreover have "event (?fp ! k) = fst (?ps ! k)" "top_pos (?fp ! k) = fst (snd (?ps ! k))"
     "height (?fp ! k) = snd (snd (?ps ! k))"
    using firstPass_geometry[of k ?ps "[]" 0] assms len by simp_all
  moreover have "event (?L ! k) = event (?fp ! k)" "top_pos (?L ! k) = top_pos (?fp ! k)"
     "height (?L ! k) = height (?fp ! k)"
    using ss k by (simp_all add: sameSlots_def)
  ultimately show ?thesis
    by (metis prod.collapse)
qed

lemma layout_events: "mset (map event (calculateEventLayout events currentDate)) = mset events"
proof -
  let ?ps = "positioned events currentDate"
  let ?fp = "firstPass ?ps [] 0"
  let ?L = "calculateEventLayout events currentDate"
  have len: "length ?ps = length events"
    by (simp add: positioned_def)
  have ss: "sameSlots ?fp ?L" by (rule layout_sameSlots)
  have "map event ?L = map event ?fp"
    using ss by (intro nth_equalityI) (simp_all add: sameSlots_def)
  also have "\<dots> = map fst ?ps"
    using firstPass_geometry[of _ ?ps "[]" 0]
    by (intro nth_equalityI) (simp_all add: firstPass_length)
  finally have "mset (map event ?L) = mset (map fst ?ps)" by simp
  also have "\<dots> = image_mset fst (mset ?ps)" by simp
  also have "mset ?ps = mset (map (\<lambda>ev. (ev, getEventPosition ev currentDate)) events)"
    by (simp add: positioned_def)
  finally show ?thesis
    by (simp add: image_mset.compositionality comp_def)
qed


lemma overlapRel_rtrancl_totalColumns:
  assumes "(i, j) \<in> (overlapRel (thirdPassLoop rs))\<^sup>*"
  shows "totalColumns (thirdPassLoop rs ! i) = totalColumns (thirdPassLoop rs ! j)"
  using assms
proof (induction rule: rtrancl_induct)
  case base
  show ?case by simp
next
  case (step y z)
  have len: "length (thirdPassLoop rs) = length rs"
    using thirdPassLoop_sameSlots[of rs] by (simp add: sameSlots_def)
  from step.hyps(2) have "y < length rs" "z < length rs" "y \<noteq> z" "overlapAt (thirdPassLoop rs) y z"
    by (simp_all add: overlapRel_def len)
  then have "totalColumns (thirdPassLoop rs ! y) = totalColumns (thirdPassLoop rs ! z)"
    using thirdPassLoop_fixpoint[of rs] by blast
  with step.IH show ?case by simp
qed

text \<open>Times and positions: for an event within one day whose start and end are whole
  minutes, the range \<open>[top, top + height)\<close> starts at the start minute and reaches the end
  minute at least.\<close>

lemma minutes_of_day: "getHours d * 60 + getMinutes d = (d mod MS_PER_DAY) div MS_PER_MINUTE"
proof -
  define r where "r = d mod 86400000"
  have m: "d mod 3600000 = r mod 3600000"
    unfolding r_def by (simp add: mod_mod_cancel)
  have "r = 3600000 * (r div 3600000) + r mod 3600000" by simp
  then have "r div 60000 = (60000 * (60 * (r div 3600000)) + r mod 3600000) div 60000"
    by simp
  also have "\<dots> = 60 * (r div 3600000) + (r mod 3600000) div 60000"
    using div_mult_self2[of 60000 "r mod 3600000" "60 * (r div 3600000)"] by (simp add: add.commute)
  finally show ?thesis
    by (simp add: getHours_def getMinutes_def MS_PER_DAY_def MS_PER_HOUR_def MS_PER_MINUTE_def m r_def)
qed

lemma aligned_time_of_day:
  assumes "d mod MS_PER_MINUTE = 0"
  shows "d mod MS_PER_DAY = MS_PER_MINUTE * ((d mod MS_PER_DAY) div MS_PER_MINUTE)"
proof -
  have "(d mod MS_PER_DAY) mod MS_PER_MINUTE = d mod MS_PER_MINUTE"
    by (simp add: MS_PER_DAY_def MS_PER_MINUTE_def mod_mod_cancel)
  then have "(d mod MS_PER_DAY) mod MS_PER_MINUTE = 0" using assms by simp
  then show ?thesis by (simp add: mod_eq_0_iff_dvd)
qed

lemma same_day_difference:
  assumes "isSameDay a b"
  shows "b - a = b mod MS_PER_DAY - a mod MS_PER_DAY"
proof -
  have "a = MS_PER_DAY * (a div MS_PER_DAY) + a mod MS_PER_DAY"
       "b = MS_PER_DAY * (b div MS_PER_DAY) + b mod MS_PER_DAY"
    by simp_all
  moreover have "a div MS_PER_DAY = b div MS_PER_DAY"
    using assms by (simp add: isSameDay_def dayIndex_def)
  ultimately show ?thesis by (metis add_diff_cancel_left)
qed

lemma getEventPosition_same_day:
  assumes "endDate ev = Some e" "isSameDay (date ev) e" "date ev \<le> e"
    and "date ev mod MS_PER_MINUTE = 0" "e mod MS_PER_MINUTE = 0"
  shows "fst (getEventPosition ev cur) = real_of_int (getHours (date ev) * 60 + getMinutes (date ev))"
    and "real_of_int (getHours e * 60 + getMinutes e)
           \<le> fst (getEventPosition ev cur) + snd (getEventPosition ev cur)"
proof -
  let ?md = "(date ev mod MS_PER_DAY) div MS_PER_MINUTE"
  let ?me = "(e mod MS_PER_DAY) div MS_PER_MINUTE"
  have tp: "fst (getEventPosition ev cur) = real_of_int (getHours (date ev) * 60 + getMinutes (date ev))"
    using assms(1,2) by (simp add: getEventPosition_def Let_def HOUR_HEIGHT_def)
  have "e - date ev = MS_PER_MINUTE * ?me - MS_PER_MINUTE * ?md"
    using same_day_difference[OF assms(2)] aligned_time_of_day[OF assms(4)] aligned_time_of_day[OF assms(5)]
    by simp
  then have "e - date ev = (?me - ?md) * MS_PER_MINUTE"
    by (simp add: algebra_simps)
  then have "(e - date ev) div MS_PER_MINUTE = ?me - ?md"
    by (simp add: MS_PER_MINUTE_def)
  then have dm: "differenceInMinutes e (date ev) = ?me - ?md"
    using assms(3) by (simp add: differenceInMinutes_def truncDiv_def)
  have "snd (getEventPosition ev cur) = max (real_of_int (differenceInMinutes e (date ev)) / 60 * 60) 20"
    using assms(1,2) by (simp add: getEventPosition_def Let_def HOUR_HEIGHT_def)
  then have "snd (getEventPosition ev cur) \<ge> real_of_int (differenceInMinutes e (date ev)) / 60 * 60"
    by simp
  then have "snd (getEventPosition ev cur) \<ge> real_of_int (?me - ?md)"
    unfolding dm by simp
  then show "real_of_int (getHours e * 60 + getMinutes e)
           \<le> fst (getEventPosition ev cur) + snd (getEventPosition ev cur)"
    unfolding tp minutes_of_day by simp
  show "fst (getEventPosition ev cur) = real_of_int (getHours (date ev) * 60 + getMinutes (date ev))"
    by (rule tp)
qed

lemma aligned_same_day_less:
  assumes "isSameDay a b" "a < b" "a mod MS_PER_MINUTE = 0" "b mod MS_PER_MINUTE = 0"
  shows "getHours a * 60 + getMinutes a < getHours b * 60 + getMinutes b"
proof -
  have "0 < b mod MS_PER_DAY - a mod MS_PER_DAY"
    using same_day_difference[OF assms(1)] assms(2) by simp
  then have "MS_PER_MINUTE * ((a mod MS_PER_DAY) div MS_PER_MINUTE)
      < MS_PER_MINUTE * ((b mod MS_PER_DAY) div MS_PER_MINUTE)"
    using aligned_time_of_day[OF assms(3)] aligned_time_of_day[OF assms(4)] by simp
  then show ?thesis
    unfolding minutes_of_day by (simp add: MS_PER_MINUTE_def)
qed

lemma intersecting_times_overlap:
  assumes a: "endDate a = Some ea" "isSameDay (date a) ea" "date a \<le> ea"
      "date a mod MS_PER_MINUTE = 0" "ea mod MS_PER_MINUTE = 0"
    and b: "endDate b = Some eb" "isSameDay (date b) eb" "date b \<le> eb"
      "date b mod MS_PER_MINUTE = 0" "eb mod MS_PER_MINUTE = 0"
    and same: "isSameDay (date a) (date b)"
    and meet: "date a < eb" "ea > date b"
  shows "eventsOverlap (fst (getEventPosition a cur)) (fst (getEventPosition a cur) + snd (getEventPosition a cur))
           (fst (getEventPosition b cur)) (fst (getEventPosition b cur) + snd (getEventPosition b cur))"
proof -
  have ab: "isSameDay (date a) eb" "isSameDay (date b) ea"
    using a(2) b(2) same by (simp_all add: isSameDay_def)
  have 1: "getHours (date a) * 60 + getMinutes (date a) < getHours eb * 60 + getMinutes eb"
    using aligned_same_day_less[OF ab(1) meet(1) a(4) b(5)] .
  have 2: "getHours (date b) * 60 + getMinutes (date b) < getHours ea * 60 + getMinutes ea"
    using aligned_same_day_less[OF ab(2) meet(2) b(4) a(5)] .
  note pa = getEventPosition_same_day[OF a, of cur]
  note pb = getEventPosition_same_day[OF b, of cur]
  have "fst (getEventPosition a cur) < fst (getEventPosition b cur) + snd (getEventPosition b cur)"
    using 1 pa(1) pb(2) by linarith
  moreover have "fst (getEventPosition a cur) + snd (getEventPosition a cur) > fst (getEventPosition b cur)"
    using 2 pb(1) pa(2) by linarith
  ultimately show ?thesis
    by (simp add: eventsOverlap_def)
qed

lemma layout_distinct_columns:
  assumes "i < length (calculateEventLayout events currentDate)"
    and "j < length (calculateEventLayout events currentDate)"
    and "i \<noteq> j" "overlapAt (calculateEventLayout events currentDate) i j"
  shows "column (calculateEventLayout events currentDate ! i)
           \<noteq> column (calculateEventLayout events currentDate ! j)"
proof -
  let ?L = "calculateEventLayout events currentDate"
  have len: "length ?L = length events" by (rule layout_length)
  show ?thesis
  proof (cases "i < j")
    case True
    then show ?thesis
      using layout_distinct_columns_lt[of i j events currentDate] assms(2,4) len by simp
  next
    case False
    then have "j < i" using assms(3) by simp
    moreover have "overlapAt ?L j i" using assms(4) overlapAt_sym by blast
    ultimately have "column (?L ! j) \<noteq> column (?L ! i)"
      using layout_distinct_columns_lt[of j i events currentDate] assms(1) len by simp
    then show ?thesis by simp
  qed
qed

lemma layout_intersecting_times:
  assumes i: "i < length (calculateEventLayout events currentDate)"
    and j: "j < length (calculateEventLayout events currentDate)"
    and ne: "i \<noteq> j"
    and a: "endDate (event (calculateEventLayout events currentDate ! i)) = Some ea"
      "isSameDay (date (event (calculateEventLayout events currentDate ! i))) ea"
      "date (event (calculateEventLayout events currentDate ! i)) \<le> ea"
      "date (event (calculateEventLayout events currentDate ! i)) mod MS_PER_MINUTE = 0"
      "ea mod MS_PER_MINUTE = 0"
    and b: "endDate (event (calculateEventLayout events currentDate ! j)) = Some eb"
      "isSameDay (date (event (calculateEventLayout events currentDate ! j))) eb"
      "date (event (calculateEventLayout events currentDate ! j)) \<le> eb"
      "date (event (calculateEventLayout events currentDate ! j)) mod MS_PER_MINUTE = 0"
      "eb mod MS_PER_MINUTE = 0"
    and same: "isSameDay (date (event (calculateEventLayout events currentDate ! i)))
                 (date (event (calculateEventLayout events currentDate ! j)))"
    and meet: "date (event (calculateEventLayout events currentDate ! i)) < eb"
      "ea > date (event (calculateEventLayout events currentDate ! j))"
  shows "column (calculateEventLayout events currentDate ! i)
           \<noteq> column (calculateEventLayout events currentDate ! j)"
proof -
  let ?L = "calculateEventLayout events currentDate"
  have len: "length ?L = length events" by (rule layout_length)
  have pi: "getEventPosition (event (?L ! i)) currentDate = (top_pos (?L ! i), height (?L ! i))"
    using layout_positions[of i events currentDate] i len by simp
  have pj: "getEventPosition (event (?L ! j)) currentDate = (top_pos (?L ! j), height (?L ! j))"
    using layout_positions[of j events currentDate] j len by simp
  have "overlapAt ?L i j"
    using intersecting_times_overlap[OF a b same meet, of currentDate]
    unfolding pi pj overlapAt_def by simp
  with i j ne show ?thesis by (rule layout_distinct_columns)
qed

text \<open>
  Claim C2, amended. Every element of the layout carries the range \<open>[top, top + height)\<close>
  that \<open>getEventPosition\<close> gives its event. Two different elements whose ranges intersect
  (\<open>start1 < end2\<close> and \<open>end1 > start2\<close>) have different columns; so have two events of the
  same day, with start and end on whole minutes, whose times intersect. Two elements of which
  one's range ends exactly where the other's begins (\<open>end1 = start2\<close>) do not overlap.
\<close>

theorem overlapping_events_distinct_columns:
  "(\<forall>k<length (calculateEventLayout events currentDate).
      (top_pos (calculateEventLayout events currentDate ! k), height (calculateEventLayout events currentDate ! k))
        = getEventPosition (event (calculateEventLayout events currentDate ! k)) currentDate)
   \<and> (\<forall>i<length (calculateEventLayout events currentDate).
      \<forall>j<length (calculateEventLayout events currentDate).
        i \<noteq> j \<and> overlapAt (calculateEventLayout events currentDate) i j \<longrightarrow>
        column (calculateEventLayout events currentDate ! i)
          \<noteq> column (calculateEventLayout events currentDate ! j))
   \<and> (\<forall>i<length (calculateEventLayout events currentDate).
      \<forall>j<length (calculateEventLayout events currentDate). \<forall>ea eb.
        i \<noteq> j
        \<and> endDate (event (calculateEventLayout events currentDate ! i)) = Some ea
        \<and> isSameDay (date (event (calculateEventLayout events currentDate ! i))) ea
        \<and> date (event (calculateEventLayout events currentDate ! i)) \<le> ea
        \<and> date (event (calculateEventLayout events currentDate ! i)) mod MS_PER_MINUTE = 0
        \<and> ea mod MS_PER_MINUTE = 0
        \<and> endDate (event (calculateEventLayout events currentDate ! j)) = Some eb
        \<and> isSameDay (date (event (calculateEventLayout events currentDate ! j))) eb
        \<and> date (event (calculateEventLayout events currentDate ! j)) \<le> eb
        \<and> date (event (calculateEventLayout events currentDate ! j)) mod MS_PER_MINUTE = 0
        \<and> eb mod MS_PER_MINUTE = 0
        \<and> isSameDay (date (event (calculateEventLayout events currentDate ! i))) (date (event (calculateEventLayout events currentDate ! j)))
        \<and> date (event (calculateEventLayout events currentDate ! i)) < eb
        \<and> ea > date (event (calculateEventLayout events currentDate ! j)) \<longrightarrow>
        column (calculateEventLayout events currentDate ! i)
          \<noteq> column (calculateEventLayout events currentDate ! j))
   \<and> (\<forall>i<length (calculateEventLayout events currentDate).
      \<forall>j<length (calculateEventLayout events currentDate).
        top_pos (calculateEventLayout events currentDate ! i) + height (calculateEventLayout events currentDate ! i) = top_pos (calculateEventLayout events currentDate ! j) \<longrightarrow>
        \<not> overlapAt (calculateEventLayout events currentDate) i j)
   \<and> (\<forall>start1 end1 end2. \<not> eventsOverlap start1 end1 end1 end2)"
proof -
  have 0: "\<forall>k<length (calculateEventLayout events currentDate).
      (top_pos (calculateEventLayout events currentDate ! k), height (calculateEventLayout events currentDate ! k))
        = getEventPosition (event (calculateEventLayout events currentDate ! k)) currentDate"
    using layout_positions[of _ events currentDate] by (simp add: layout_length)
  have 1: "\<forall>i<length (calculateEventLayout events currentDate).
      \<forall>j<length (calculateEventLayout events currentDate).
        i \<noteq> j \<and> overlapAt (calculateEventLayout events currentDate) i j \<longrightarrow>
        column (calculateEventLayout events currentDate ! i)
          \<noteq> column (calculateEventLayout events currentDate ! j)"
    using layout_distinct_columns[of _ events currentDate] by blast
  have 2: "\<forall>i<length (calculateEventLayout events currentDate).
      \<forall>j<length (calculateEventLayout events currentDate). \<forall>ea eb.
        i \<noteq> j
        \<and> endDate (event (calculateEventLayout events currentDate ! i)) = Some ea
        \<and> isSameDay (date (event (calculateEventLayout events currentDate ! i))) ea
        \<and> date (event (calculateEventLayout events currentDate ! i)) \<le> ea
        \<and> date (event (calculateEventLayout events currentDate ! i)) mod MS_PER_MINUTE = 0
        \<and> ea mod MS_PER_MINUTE = 0
        \<and> endDate (event (calculateEventLayout events currentDate ! j)) = Some eb
        \<and> isSameDay (date (event (calculateEventLayout events currentDate ! j))) eb
        \<and> date (event (calculateEventLayout events currentDate ! j)) \<le> eb
        \<and> date (event (calculateEventLayout events currentDate ! j)) mod MS_PER_MINUTE = 0
        \<and> eb mod MS_PER_MINUTE = 0
        \<and> isSameDay (date (event (calculateEventLayout events currentDate ! i))) (date (event (calculateEventLayout events currentDate ! j)))
        \<and> date (event (calculateEventLayout events currentDate ! i)) < eb
        \<and> ea > date (event (calculateEventLayout events currentDate ! j)) \<longrightarrow>
        column (calculateEventLayout events currentDate ! i)
          \<noteq> column (calculateEventLayout events currentDate ! j)"
  proof (intro allI impI)
    fix i j ea eb
    assume i: "i < length (calculateEventLayout events currentDate)" and j: "j < length (calculateEventLayout events currentDate)"
      and h: "i \<noteq> j
        \<and> endDate (event (calculateEventLayout events currentDate ! i)) = Some ea
        \<and> isSameDay (date (event (calculateEventLayout events currentDate ! i))) ea
        \<and> date (event (calculateEventLayout events currentDate ! i)) \<le> ea
        \<and> date (event (calculateEventLayout events currentDate ! i)) mod MS_PER_MINUTE = 0
        \<and> ea mod MS_PER_MINUTE = 0
        \<and> endDate (event (calculateEventLayout events currentDate ! j)) = Some eb
        \<and> isSameDay (date (event (calculateEventLayout events currentDate ! j))) eb
        \<and> date (event (calculateEventLayout events currentDate ! j)) \<le> eb
        \<and> date (event (calculateEventLayout events currentDate ! j)) mod MS_PER_MINUTE = 0
        \<and> eb mod MS_PER_MINUTE = 0
        \<and> isSameDay (date (event (calculateEventLayout events currentDate ! i))) (date (event (calculateEventLayout events currentDate ! j)))
        \<and> date (event (calculateEventLayout events currentDate ! i)) < eb
        \<and> ea > date (event (calculateEventLayout events currentDate ! j))"
    show "column (calculateEventLayout events currentDate ! i) \<noteq> column (calculateEventLayout events currentDate ! j)"
      by (rule layout_intersecting_times[OF i j, of ea eb]) (use h in blast)+
  qed
  have 3: "\<forall>i<length (calculateEventLayout events currentDate).
      \<forall>j<length (calculateEventLayout events currentDate).
        top_pos (calculateEventLayout events currentDate ! i) + height (calculateEventLayout events currentDate ! i) = top_pos (calculateEventLayout events currentDate ! j) \<longrightarrow>
        \<not> overlapAt (calculateEventLayout events currentDate) i j"
    by (simp add: overlapAt_def eventsOverlap_def)
  have 4: "\<forall>start1 end1 end2. \<not> eventsOverlap start1 end1 end1 end2"
    by (simp add: eventsOverlap_def)
  from 0 1 2 3 4 show ?thesis by blast
qed

text \<open>
  Claim C2 as stated, about the times of events, fails twice. The events 09:00:40 to 09:30:40
  and 09:30:10 to 10:00:10 intersect in time and both get column 0: the seconds are dropped
  from the start and from the duration. The events 09:00 to 09:05 and 09:05 to 09:30 only
  touch in time, and still overlap in the layout and get the columns 0 and 1: the height has
  a floor of 20.
\<close>

theorem event_times_are_not_laid_out_ranges:
  "(32440000::int) < 36010000 \<and> (34240000::int) > 34210000
   \<and> map column (calculateEventLayout
         [mkEvent ''a'' 32440000 (Some 34240000), mkEvent ''b'' 34210000 (Some 36010000)] 0) = [0, 0]
   \<and> overlapAt (calculateEventLayout
         [mkEvent ''c'' 32400000 (Some 32700000), mkEvent ''d'' 32700000 (Some 34200000)] 0) 0 1
   \<and> map column (calculateEventLayout
         [mkEvent ''c'' 32400000 (Some 32700000), mkEvent ''d'' 32700000 (Some 34200000)] 0) = [0, 1]"
  by code_simp

text \<open>Two events 09:00 to 10:00 and 09:30 to 10:30 overlap and get different columns; the
  range of 09:00 to 10:00 ends where that of 10:00 to 11:00 begins, they do not overlap and
  both get column 0.\<close>

theorem overlapping_events_distinct_columns_witness:
  "overlapAt (calculateEventLayout
       [mkEvent ''a'' 32400000 (Some 36000000), mkEvent ''b'' 34200000 (Some 37800000)] 0) 0 1
   \<and> column (calculateEventLayout
       [mkEvent ''a'' 32400000 (Some 36000000), mkEvent ''b'' 34200000 (Some 37800000)] 0 ! 0)
     \<noteq> column (calculateEventLayout
       [mkEvent ''a'' 32400000 (Some 36000000), mkEvent ''b'' 34200000 (Some 37800000)] 0 ! 1)
   \<and> top_pos (calculateEventLayout
       [mkEvent ''a'' 32400000 (Some 36000000), mkEvent ''b'' 36000000 (Some 39600000)] 0 ! 0)
      + height (calculateEventLayout
       [mkEvent ''a'' 32400000 (Some 36000000), mkEvent ''b'' 36000000 (Some 39600000)] 0 ! 0)
     = top_pos (calculateEventLayout
       [mkEvent ''a'' 32400000 (Some 36000000), mkEvent ''b'' 36000000 (Some 39600000)] 0 ! 1)
   \<and> \<not> overlapAt (calculateEventLayout
       [mkEvent ''a'' 32400000 (Some 36000000), mkEvent ''b'' 36000000 (Some 39600000)] 0) 0 1
   \<and> map column (calculateEventLayout
       [mkEvent ''a'' 32400000 (Some 36000000), mkEvent ''b'' 36000000 (Some 39600000)] 0) = [0, 0]"
proof -
  let ?L = "calculateEventLayout
       [mkEvent ''a'' 32400000 (Some 36000000), mkEvent ''b'' 34200000 (Some 37800000)] 0"
  let ?M = "calculateEventLayout
       [mkEvent ''a'' 32400000 (Some 36000000), mkEvent ''b'' 36000000 (Some 39600000)] 0"
  have len: "length ?L = 2" "length ?M = 2" by (simp_all add: layout_length)
  have ov: "overlapAt ?L 0 1" by code_simp
  note T = overlapping_events_distinct_columns[of "[mkEvent ''a'' 32400000 (Some 36000000), mkEvent ''b'' 34200000 (Some 37800000)]" 0]
  note U = overlapping_events_distinct_columns[of "[mkEvent ''a'' 32400000 (Some 36000000), mkEvent ''b'' 36000000 (Some 39600000)]" 0]
  have c: "column (?L ! 0) \<noteq> column (?L ! 1)"
    using T[THEN conjunct2, THEN conjunct1, rule_format, of 0 1] len ov by simp
  have t: "top_pos (?M ! 0) + height (?M ! 0) = top_pos (?M ! 1)" by code_simp
  have n: "\<not> overlapAt ?M 0 1"
    using U[THEN conjunct2, THEN conjunct2, THEN conjunct2, THEN conjunct1, rule_format, of 0 1] len t
    by simp
  have m: "map column ?M = [0, 0]" by code_simp
  from ov c t n m show ?thesis by blast
qed

text \<open>
  Claim C3. In the result of the layout, any two elements connected by a chain of pairwise
  overlaps have the same \<open>totalColumns\<close>; the three events 09:00 to 10:00, 09:00 to 10:00
  and 09:30 to 10:30 get the columns 0, 1, 2 and \<open>totalColumns = 3\<close> each.
\<close>

theorem cluster_shares_totalColumns:
  "(\<forall>i j. (i, j) \<in> (overlapRel (calculateEventLayout events currentDate))\<^sup>* \<longrightarrow>
       totalColumns (calculateEventLayout events currentDate ! i)
         = totalColumns (calculateEventLayout events currentDate ! j))
   \<and> map (\<lambda>l. (column l, totalColumns l))
       (calculateEventLayout
          [mkEvent ''a'' 32400000 (Some 36000000), mkEvent ''b'' 32400000 (Some 36000000),
           mkEvent ''c'' 34200000 (Some 37800000)] 0)
     = [(0, 3), (1, 3), (2, 3)]"
proof (intro conjI allI impI)
  fix i j
  assume "(i, j) \<in> (overlapRel (calculateEventLayout events currentDate))\<^sup>*"
  then show "totalColumns (calculateEventLayout events currentDate ! i)
         = totalColumns (calculateEventLayout events currentDate ! j)"
    unfolding calculateEventLayout_eq by (rule overlapRel_rtrancl_totalColumns)
next
  show "map (\<lambda>l. (column l, totalColumns l))
       (calculateEventLayout
          [mkEvent ''a'' 32400000 (Some 36000000), mkEvent ''b'' 32400000 (Some 36000000),
           mkEvent ''c'' 34200000 (Some 37800000)] 0)
     = [(0, 3), (1, 3), (2, 3)]"
    by code_simp
qed

text \<open>A chain: 09:00 to 10:00 overlaps 09:30 to 10:30, which overlaps 10:00 to 11:00; the
  first and the last do not overlap and still share \<open>totalColumns\<close>.\<close>

theorem cluster_shares_totalColumns_witness:
  "(0, 2) \<in> (overlapRel (calculateEventLayout
        [mkEvent ''a'' 32400000 (Some 36000000), mkEvent ''b'' 34200000 (Some 37800000),
         mkEvent ''c'' 36000000 (Some 39600000)] 0))\<^sup>*
   \<and> \<not> overlapAt (calculateEventLayout
        [mkEvent ''a'' 32400000 (Some 36000000), mkEvent ''b'' 34200000 (Some 37800000),
         mkEvent ''c'' 36000000 (Some 39600000)] 0) 0 2
   \<and> totalColumns (calculateEventLayout
        [mkEvent ''a'' 32400000 (Some 36000000), mkEvent ''b'' 34200000 (Some 37800000),
         mkEvent ''c'' 36000000 (Some 39600000)] 0 ! 0)
     = totalColumns (calculateEventLayout
        [mkEvent ''a'' 32400000 (Some 36000000), mkEvent ''b'' 34200000 (Some 37800000),
         mkEvent ''c'' 36000000 (Some 39600000)] 0 ! 2)"
proof -
  let ?es = "[mkEvent ''a'' 32400000 (Some 36000000), mkEvent ''b'' 34200000 (Some 37800000),
         mkEvent ''c'' 36000000 (Some 39600000)]"
  let ?L = "calculateEventLayout ?es 0"
  have len: "length ?L = 3" by (simp add: layout_length)
  have ov: "overlapAt ?L 0 1" "overlapAt ?L 1 2" "\<not> overlapAt ?L 0 2"
    by code_simp+
  have "(0, 1) \<in> overlapRel ?L" "(1, 2) \<in> overlapRel ?L"
    using len ov by (simp_all add: overlapRel_def)
  then have chain: "(0, 2) \<in> (overlapRel ?L)\<^sup>*"
    by (meson converse_rtrancl_into_rtrancl r_into_rtrancl)
  from cluster_shares_totalColumns[of ?es 0, THEN conjunct1, rule_format, OF chain] chain ov(3)
  show ?thesis by simp
qed

text \<open>
  Claim C10. Every element of the layout has \<open>0 \<le> column < totalColumns\<close>, so its rendered
  slice, from \<open>leftPercent\<close> to \<open>leftPercent + widthPercent\<close>, lies within 0 and 100.
\<close>

theorem layout_column_below_totalColumns:
  "\<forall>l \<in> set (calculateEventLayout events currentDate).
     0 \<le> column l \<and> column l < totalColumns l \<and>
     0 \<le> leftPercent l \<and> leftPercent l + widthPercent l \<le> 100"
proof
  fix l
  let ?ps = "positioned events currentDate"
  let ?fp = "firstPass ?ps [] 0"
  let ?sp = "secondPass ?fp"
  let ?L = "calculateEventLayout events currentDate"
  assume "l \<in> set ?L"
  then obtain k where k: "k < length ?L" "l = ?L ! k"
    by (auto simp: in_set_conv_nth)
  have L: "?L = thirdPassLoop ?sp" by (rule calculateEventLayout_eq)
  have ss: "sameSlots ?sp ?L" unfolding L by (rule thirdPassLoop_sameSlots)
  have ksp: "k < length ?sp" using ss k(1) by (simp add: sameSlots_def)
  have kfp: "k < length ?fp"
    using secondPass_sameSlots[of ?fp] ksp by (simp add: sameSlots_def)
  have "column (?sp ! k) < totalColumns (?sp ! k)"
    using kfp by (rule secondPass_columns)
  moreover have "totalColumns (?sp ! k) \<le> totalColumns (?L ! k)"
    unfolding L using ksp by (rule thirdPassLoop_mono)
  moreover have "column (?L ! k) = column (?sp ! k)"
    using ss ksp by (simp add: sameSlots_def)
  ultimately have c: "column l < totalColumns l"
    using k(2) by simp
  then have pos: "0 < real (totalColumns l)" by simp
  have "leftPercent l + widthPercent l = (real (column l) + 1) * (100 / real (totalColumns l))"
    by (simp add: leftPercent_def widthPercent_def distrib_right add_divide_distrib)
  also have "\<dots> \<le> real (totalColumns l) * (100 / real (totalColumns l))"
  proof (rule mult_right_mono)
    show "real (column l) + 1 \<le> real (totalColumns l)" using c by simp
    show "0 \<le> 100 / real (totalColumns l)" by simp
  qed
  also have "\<dots> = 100" using pos by simp
  finally have "leftPercent l + widthPercent l \<le> 100" .
  moreover have "0 \<le> leftPercent l"
    by (simp add: leftPercent_def widthPercent_def)
  ultimately show "0 \<le> column l \<and> column l < totalColumns l \<and>
     0 \<le> leftPercent l \<and> leftPercent l + widthPercent l \<le> 100"
    using c by simp
qed

text \<open>The second of two overlapping events: column 1 of 2.\<close>

theorem layout_column_below_totalColumns_witness:
  "calculateEventLayout
      [mkEvent ''a'' 32400000 (Some 36000000), mkEvent ''b'' 34200000 (Some 37800000)] 0 ! 1
    \<in> set (calculateEventLayout
      [mkEvent ''a'' 32400000 (Some 36000000), mkEvent ''b'' 34200000 (Some 37800000)] 0)
   \<and> column (calculateEventLayout
      [mkEvent ''a'' 32400000 (Some 36000000), mkEvent ''b'' 34200000 (Some 37800000)] 0 ! 1) = 1
   \<and> totalColumns (calculateEventLayout
      [mkEvent ''a'' 32400000 (Some 36000000), mkEvent ''b'' 34200000 (Some 37800000)] 0 ! 1) = 2
   \<and> leftPercent (calculateEventLayout
      [mkEvent ''a'' 32400000 (Some 36000000), mkEvent ''b'' 34200000 (Some 37800000)] 0 ! 1)
     + widthPercent (calculateEventLayout
      [mkEvent ''a'' 32400000 (Some 36000000), mkEvent ''b'' 34200000 (Some 37800000)] 0 ! 1) \<le> 100"
proof -
  let ?L = "calculateEventLayout
      [mkEvent ''a'' 32400000 (Some 36000000), mkEvent ''b'' 34200000 (Some 37800000)] 0"
  have mem: "?L ! 1 \<in> set ?L"
    by (rule nth_mem) (simp add: layout_length)
  have vals: "column (?L ! 1) = 1" "totalColumns (?L ! 1) = 2"
    by code_simp+
  from layout_column_below_totalColumns[of "[mkEvent ''a'' 32400000 (Some 36000000), mkEvent ''b'' 34200000 (Some 37800000)]" 0,
      rule_format, OF mem] mem vals
  show ?thesis by simp
qed


section \<open>Gantt view: date mapping, position mapping and window\<close>


lemma Math_round_of_int: "Math_round (real_of_int k) = k"
  unfolding Math_round_def by linarith

lemma Math_round_nearest: "\<bar>x - real_of_int (Math_round x)\<bar> \<le> 1 / 2"
  unfolding Math_round_def by linarith

lemma addDays_dayIndex: "dayIndex (addDays d k) = dayIndex d + k"
  by (simp add: addDays_def dayIndex_def MS_PER_DAY_def)

lemma addDays_timeOfDay: "addDays d k mod MS_PER_DAY = d mod MS_PER_DAY"
  by (simp add: addDays_def MS_PER_DAY_def)

text \<open>
  Claim C6. For a positive \<open>pixelsPerUnit\<close>: a delta of 0 pixels returns the date itself; a
  delta of \<open>k\<close> times \<open>pixelsPerUnit\<close> returns the date \<open>k\<close> whole days later (the day
  number moves by \<open>k\<close>, the time of day stays); in general the new date is the original
  plus \<open>Math.round(pixelDelta / pixelsPerUnit)\<close> days, the nearest integer. Numbers are
  reals here.
\<close>

theorem dateFromDelta_consistency:
  assumes "0 < pixelsPerUnit"
  shows "calculateDateFromDelta d 0 pixelsPerUnit = d
       \<and> calculateDateFromDelta d (real_of_int k * pixelsPerUnit) pixelsPerUnit = addDays d k
       \<and> dayIndex (calculateDateFromDelta d (real_of_int k * pixelsPerUnit) pixelsPerUnit) = dayIndex d + k
       \<and> calculateDateFromDelta d (real_of_int k * pixelsPerUnit) pixelsPerUnit mod MS_PER_DAY = d mod MS_PER_DAY
       \<and> calculateDateFromDelta d pixelDelta pixelsPerUnit
            = addDays d (Math_round (pixelDelta / pixelsPerUnit))
       \<and> \<bar>pixelDelta / pixelsPerUnit - real_of_int (Math_round (pixelDelta / pixelsPerUnit))\<bar> \<le> 1 / 2"
proof -
  have zero: "calculateDateFromDelta d 0 pixelsPerUnit = d"
    using Math_round_of_int[of 0] by (simp add: calculateDateFromDelta_def addDays_def)
  have "real_of_int k * pixelsPerUnit / pixelsPerUnit = real_of_int k"
    using assms by simp
  then have k: "calculateDateFromDelta d (real_of_int k * pixelsPerUnit) pixelsPerUnit = addDays d k"
    by (simp add: calculateDateFromDelta_def Math_round_of_int)
  show ?thesis
    using zero k addDays_dayIndex[of d k] addDays_timeOfDay[of d k] Math_round_nearest
    by (simp add: calculateDateFromDelta_def)
qed

text \<open>At 25 pixels per day: no movement, and 75 pixels to the left.\<close>

theorem dateFromDelta_consistency_witness:
  "(0::real) < 25 \<and> calculateDateFromDelta 1736000000000 0 25 = 1736000000000
     \<and> calculateDateFromDelta 1736000000000 (real_of_int (-3) * 25) 25 = 1736000000000 - 3 * 86400000"
  using dateFromDelta_consistency[of 25 1736000000000 "-3" 0]
  by (simp add: addDays_def MS_PER_DAY_def)

lemma truncDiv_nonneg: "0 \<le> a \<Longrightarrow> 0 < b \<Longrightarrow> truncDiv a b = a div b"
  by (simp add: truncDiv_def)

lemma truncDiv_nonpos: "a \<le> 0 \<Longrightarrow> 0 < b \<Longrightarrow> truncDiv a b \<le> 0"
  by (auto simp: truncDiv_def pos_imp_zdiv_nonneg_iff)

lemma differenceInDays_nonneg: "b \<le> a \<Longrightarrow> differenceInDays a b = (a - b) div MS_PER_DAY"
  by (simp add: differenceInDays_def truncDiv_def)

lemma differenceInDays_ge0: "b \<le> a \<Longrightarrow> 0 \<le> differenceInDays a b"
  by (simp add: differenceInDays_nonneg MS_PER_DAY_def pos_imp_zdiv_nonneg_iff)

lemma differenceInDays_le0: "a \<le> b \<Longrightarrow> differenceInDays a b \<le> 0"
  by (simp add: differenceInDays_def truncDiv_nonpos MS_PER_DAY_def)

lemma div_add_le: "(0::int) \<le> a \<Longrightarrow> 0 \<le> b \<Longrightarrow> 0 < D \<Longrightarrow> a div D + b div D \<le> (a + b) div D"
proof -
  assume h: "0 \<le> a" "0 \<le> b" "0 < D"
  have "(a div D + b div D) * D \<le> a + b"
  proof -
    have "a = a div D * D + a mod D" "b = b div D * D + b mod D"
      by simp_all
    moreover have "0 \<le> a mod D" "0 \<le> b mod D"
      using h(3) by simp_all
    ultimately have "a div D * D \<le> a" "b div D * D \<le> b"
      by linarith+
    then show ?thesis by (simp add: distrib_right)
  qed
  then have "((a div D + b div D) * D) div D \<le> (a + b) div D"
    by (rule zdiv_mono1) (rule h(3))
  then show ?thesis using h(3) by simp
qed

text \<open>
  Claim C8, amended. For a window with \<open>start \<le> end\<close> and an item with \<open>start \<le> end\<close>
  that lies fully within the window: \<open>left\<close> is in \<open>[0, 100]\<close>, \<open>width > 0\<close> and
  \<open>left + width \<le> 100 + \<epsilon>\<close> for every positive \<open>\<epsilon>\<close>. For an item only partially
  within the window \<open>width > 0\<close> still holds, \<open>left \<ge> 0\<close> holds when the item starts at
  or after the window start, and \<open>left \<le> 100\<close> when it starts no later than the window end.
\<close>

theorem taskPosition_bounds:
  assumes "timelineStart \<le> timelineEnd" "taskStart \<le> taskEnd" "0 < eps"
  shows "0 < width (calculateTaskPosition taskStart taskEnd timelineStart timelineEnd)
     \<and> (timelineStart \<le> taskStart \<longrightarrow>
           0 \<le> left (calculateTaskPosition taskStart taskEnd timelineStart timelineEnd))
     \<and> (taskStart \<le> timelineEnd \<longrightarrow>
           left (calculateTaskPosition taskStart taskEnd timelineStart timelineEnd) \<le> 100)
     \<and> (timelineStart \<le> taskStart \<and> taskEnd \<le> timelineEnd \<longrightarrow>
           left (calculateTaskPosition taskStart taskEnd timelineStart timelineEnd)
             + width (calculateTaskPosition taskStart taskEnd timelineStart timelineEnd) \<le> 100 + eps)"
proof -
  define span where "span = differenceInDays timelineEnd timelineStart + 1"
  define off where "off = differenceInDays taskStart timelineStart"
  define tsp where "tsp = differenceInDays taskEnd taskStart + 1"
  have L: "left (calculateTaskPosition taskStart taskEnd timelineStart timelineEnd)
             = real_of_int off / real_of_int span * 100"
    and W: "width (calculateTaskPosition taskStart taskEnd timelineStart timelineEnd)
             = real_of_int tsp / real_of_int span * 100"
    by (simp_all add: calculateTaskPosition_def Let_def span_def off_def tsp_def)
  have span: "1 \<le> span"
    using differenceInDays_ge0[OF assms(1)] by (simp add: span_def)
  have tsp: "1 \<le> tsp"
    using differenceInDays_ge0[OF assms(2)] by (simp add: tsp_def)
  have spos: "0 < real_of_int span" using span by simp
  have w: "0 < real_of_int tsp / real_of_int span * 100"
    using span tsp by simp
  have l0: "0 \<le> real_of_int off / real_of_int span * 100" if "timelineStart \<le> taskStart"
    using differenceInDays_ge0[OF that] span by (simp add: off_def)
  have l100: "real_of_int off / real_of_int span * 100 \<le> 100" if h: "taskStart \<le> timelineEnd"
  proof -
    have "off \<le> span"
    proof (cases "timelineStart \<le> taskStart")
      case True
      have "(taskStart - timelineStart) div MS_PER_DAY \<le> (timelineEnd - timelineStart) div MS_PER_DAY"
        by (rule zdiv_mono1) (use h in \<open>simp_all add: MS_PER_DAY_def\<close>)
      then show ?thesis
        using True assms(1) by (simp add: off_def span_def differenceInDays_nonneg)
    next
      case False
      then have "off \<le> 0"
        using differenceInDays_le0[of taskStart timelineStart] by (simp add: off_def)
      with span show ?thesis by simp
    qed
    then have "real_of_int off \<le> real_of_int span" by simp
    then have "real_of_int off / real_of_int span \<le> 1"
      using spos by (simp add: divide_le_eq_1)
    then have "real_of_int off / real_of_int span * 100 \<le> 1 * 100"
      by (rule mult_right_mono) simp
    then show ?thesis by simp
  qed
  have sum: "real_of_int off / real_of_int span * 100 + real_of_int tsp / real_of_int span * 100 \<le> 100"
    if h: "timelineStart \<le> taskStart \<and> taskEnd \<le> timelineEnd"
  proof -
    have a: "0 \<le> taskStart - timelineStart" and b: "0 \<le> taskEnd - taskStart"
      using h assms(2) by simp_all
    have "(taskStart - timelineStart) div MS_PER_DAY + (taskEnd - taskStart) div MS_PER_DAY
            \<le> ((taskStart - timelineStart) + (taskEnd - taskStart)) div MS_PER_DAY"
      using a b by (rule div_add_le) (simp add: MS_PER_DAY_def)
    also have "\<dots> \<le> (timelineEnd - timelineStart) div MS_PER_DAY"
      by (rule zdiv_mono1) (use h in \<open>simp_all add: MS_PER_DAY_def\<close>)
    finally have "off + tsp \<le> span"
      using h assms by (simp add: off_def tsp_def span_def differenceInDays_nonneg)
    then have "real_of_int off + real_of_int tsp \<le> real_of_int span"
      by linarith
    then have "(real_of_int off + real_of_int tsp) / real_of_int span \<le> 1"
      using spos by (simp add: divide_le_eq_1)
    then have "(real_of_int off + real_of_int tsp) / real_of_int span * 100 \<le> 1 * 100"
      by (rule mult_right_mono) simp
    then have "(real_of_int off + real_of_int tsp) / real_of_int span * 100 \<le> 100"
      by simp
    then show ?thesis
      by (simp add: add_divide_distrib distrib_right)
  qed
  have sum': "real_of_int off / real_of_int span * 100 + real_of_int tsp / real_of_int span * 100 \<le> 100 + eps"
    if "timelineStart \<le> taskStart \<and> taskEnd \<le> timelineEnd"
    using sum[OF that] assms(3) by linarith
  show ?thesis
    unfolding L W using w l0 l100 sum' by blast
qed

text \<open>January and February 2025 as the window, an item from 2025-01-12 to 2025-02-28.\<close>

theorem taskPosition_bounds_witness:
  "(1735689600000::int) \<le> 1740787199999 \<and> (1736640000000::int) \<le> 1740700800000
   \<and> (0::real) < 1 / 1000
   \<and> (1735689600000::int) \<le> 1736640000000 \<and> (1740700800000::int) \<le> 1740787199999
   \<and> left (calculateTaskPosition 1736640000000 1740700800000 1735689600000 1740787199999) = 11 / 59 * 100
   \<and> width (calculateTaskPosition 1736640000000 1740700800000 1735689600000 1740787199999) = 48 / 59 * 100
   \<and> 0 \<le> left (calculateTaskPosition 1736640000000 1740700800000 1735689600000 1740787199999)
   \<and> left (calculateTaskPosition 1736640000000 1740700800000 1735689600000 1740787199999) \<le> 100
   \<and> 0 < width (calculateTaskPosition 1736640000000 1740700800000 1735689600000 1740787199999)
   \<and> left (calculateTaskPosition 1736640000000 1740700800000 1735689600000 1740787199999)
        + width (calculateTaskPosition 1736640000000 1740700800000 1735689600000 1740787199999)
       \<le> 100 + 1 / 1000"
proof -
  have l: "left (calculateTaskPosition 1736640000000 1740700800000 1735689600000 1740787199999) = 11 / 59 * 100"
    "width (calculateTaskPosition 1736640000000 1740700800000 1735689600000 1740787199999) = 48 / 59 * 100"
    by (simp_all add: calculateTaskPosition_def differenceInDays_def truncDiv_def MS_PER_DAY_def)
  have h: "(1735689600000::int) \<le> 1740787199999" "(1736640000000::int) \<le> 1740700800000"
    "(0::real) < 1 / 1000" "(1735689600000::int) \<le> 1736640000000" "(1740700800000::int) \<le> 1740787199999"
    by simp_all
  note T = taskPosition_bounds[OF h(1) h(2) h(3)]
  have "0 \<le> left (calculateTaskPosition 1736640000000 1740700800000 1735689600000 1740787199999)"
    "left (calculateTaskPosition 1736640000000 1740700800000 1735689600000 1740787199999) \<le> 100"
    "0 < width (calculateTaskPosition 1736640000000 1740700800000 1735689600000 1740787199999)"
    "left (calculateTaskPosition 1736640000000 1740700800000 1735689600000 1740787199999)
        + width (calculateTaskPosition 1736640000000 1740700800000 1735689600000 1740787199999)
       \<le> 100 + 1 / 1000"
    using T h by simp_all
  with h l show ?thesis by blast
qed

text \<open>
  Claim C8 as stated fails for items partially within the window: in the window from day 10
  to day 20, an item from day 5 to day 15 has a negative \<open>left\<close>, and an item from day 15 to
  day 25 has \<open>left + width\<close> above 101.
\<close>

theorem taskPosition_partial_item_outside:
  "(864000000::int) \<le> 1728000000 \<and> (432000000::int) \<le> 1296000000
   \<and> (432000000::int) \<le> 1728000000 \<and> (864000000::int) \<le> 1296000000
   \<and> left (calculateTaskPosition 432000000 1296000000 864000000 1728000000) < 0
   \<and> (1296000000::int) \<le> 2160000000 \<and> (864000000::int) \<le> 2160000000
   \<and> left (calculateTaskPosition 1296000000 2160000000 864000000 1728000000)
      + width (calculateTaskPosition 1296000000 2160000000 864000000 1728000000) > 101"
  by (simp add: calculateTaskPosition_def differenceInDays_def truncDiv_def MS_PER_DAY_def)

lemma set_allDates:
  "set (concat (map (\<lambda>t. [startDate t, taskEndDate t]) ts)) = startDate ` set ts \<union> taskEndDate ` set ts"
  by (induction ts) auto

lemma Math_min_Min: "xs \<noteq> [] \<Longrightarrow> Math_min xs = Some (Min (set xs))"
  by (cases xs) (simp_all add: Math_min_def Min.set_eq_fold[symmetric])

lemma Math_max_Max: "xs \<noteq> [] \<Longrightarrow> Math_max xs = Some (Max (set xs))"
  by (cases xs) (simp_all add: Math_max_def Max.set_eq_fold[symmetric])

text \<open>
  Claim C5. Window derivation always returns a window: for no task, the month of \<open>now\<close>;
  for one or more tasks, from the start of the month of the least of all start and end dates
  to the end of the month of the greatest.
\<close>

theorem timelineRange_window:
  "(ts = [] \<longrightarrow> calculateTimelineRange now ts = Some (startOfMonth now, endOfMonth now))
   \<and> (ts \<noteq> [] \<longrightarrow> calculateTimelineRange now ts =
         Some (startOfMonth (Min (startDate ` set ts \<union> taskEndDate ` set ts)),
               endOfMonth (Max (startDate ` set ts \<union> taskEndDate ` set ts))))"
proof (intro conjI impI)
  assume "ts = []"
  then show "calculateTimelineRange now ts = Some (startOfMonth now, endOfMonth now)"
    by (simp add: calculateTimelineRange_def)
next
  assume ne: "ts \<noteq> []"
  let ?all = "concat (map (\<lambda>t. [startDate t, taskEndDate t]) ts)"
  have "?all \<noteq> []" using ne by (cases ts) simp_all
  then have "Math_min ?all = Some (Min (set ?all))" "Math_max ?all = Some (Max (set ?all))"
    by (rule Math_min_Min, rule Math_max_Max)
  then have "Math_min ?all = Some (Min (startDate ` set ts \<union> taskEndDate ` set ts))"
    "Math_max ?all = Some (Max (startDate ` set ts \<union> taskEndDate ` set ts))"
    unfolding set_allDates by simp_all
  then show "calculateTimelineRange now ts =
         Some (startOfMonth (Min (startDate ` set ts \<union> taskEndDate ` set ts)),
               endOfMonth (Max (startDate ` set ts \<union> taskEndDate ` set ts)))"
    using ne by (simp add: calculateTimelineRange_def Let_def del: set_concat)
qed

section \<open>Drag and resize gestures\<close>


lemma multiDayDrag_moves:
  assumes "dragStartRef s = Some ref"
  shows "dragStartRef (fold (\<lambda>x s. multiDayDrag_handleMouseMove s x) moves s) = Some ref
       \<and> dragDayWidth (fold (\<lambda>x s. multiDayDrag_handleMouseMove s x) moves s) = dragDayWidth s
       \<and> dragDeltaDays (fold (\<lambda>x s. multiDayDrag_handleMouseMove s x) moves s)
           = (if moves = [] then dragDeltaDays s
              else Math_round ((last moves - fst ref) / dragDayWidth s))"
  using assms
proof (induction moves arbitrary: s)
  case Nil
  then show ?case by simp
next
  case (Cons x moves)
  let ?s = "multiDayDrag_handleMouseMove s x"
  have s': "dragStartRef ?s = Some ref" "dragDayWidth ?s = dragDayWidth s"
    "dragDeltaDays ?s = Math_round ((x - fst ref) / dragDayWidth s)"
    using Cons.prems by (simp_all add: multiDayDrag_handleMouseMove_def Let_def)
  from Cons.IH[OF s'(1)] s' show ?case by simp
qed

lemma multiDayDrag_gesture_writes:
  "multiDayDrag_gesture ev dateProperty endDateProp 0 containerWidth clientX moves =
     (if accumulatedDelta (getDayWidth containerWidth) clientX moves \<noteq> 0 then
        [(eventFile ev, dateProperty,
            formatDateString (addDays (date ev) (accumulatedDelta (getDayWidth containerWidth) clientX moves))),
         (eventFile ev, endDateProp,
            formatDateString (addDays (case endDate ev of Some e \<Rightarrow> e | None \<Rightarrow> date ev)
               (accumulatedDelta (getDayWidth containerWidth) clientX moves)))]
      else [])"
proof -
  let ?ed = "case endDate ev of Some e \<Rightarrow> e | None \<Rightarrow> date ev"
  let ?init = "\<lparr>dragStartRef = Some (clientX, date ev, ?ed),
                  dragDayWidth = getDayWidth containerWidth,
                  dragDeltaDays = 0, dragPreviewDelta = 0, dragHadMovement = False\<rparr>"
  let ?s = "fold (\<lambda>x s. multiDayDrag_handleMouseMove s x) moves ?init"
  have start: "multiDayDrag_handleDragStart ev 0 clientX containerWidth = Some ?init"
    by (simp add: multiDayDrag_handleDragStart_def Let_def)
  have r0: "dragStartRef ?init = Some (clientX, date ev, ?ed)" by simp
  note m = multiDayDrag_moves[OF r0, of moves]
  have s1: "dragStartRef ?s = Some (clientX, date ev, ?ed)"
    using m by (rule conjunct1)
  have "dragDeltaDays ?s = (if moves = [] then dragDeltaDays ?init
              else Math_round ((last moves - fst (clientX, date ev, ?ed)) / dragDayWidth ?init))"
    using m by (elim conjE)
  then have s2: "dragDeltaDays ?s = accumulatedDelta (getDayWidth containerWidth) clientX moves"
    by (simp add: accumulatedDelta_def)
  note s = s1 s2
  show ?thesis
    unfolding multiDayDrag_gesture_def start
    by (simp add: multiDayDrag_handleMouseUp_def Let_def s)
qed

lemma eventDrag_handleDragEnd_changed:
  assumes "find (\<lambda>e. eventId e = activeId) events = Some dropped"
    and "newDateString \<noteq> formatDateString (date dropped)"
  shows "eventDrag_handleDragEnd events dateProperty activeId (Some newDateString)
           = [(eventFile dropped, dateProperty, newDateString)]"
  using assms by (auto simp: eventDrag_handleDragEnd_def Let_def)

text \<open>
  Claim C4, amended. At mouse-up of a calendar pointer drag (\<open>useMultiDayEventDrag\<close>): with
  a non-zero day delta exactly two writes are issued, the start property and the end property,
  each date shifted by that delta; with a zero delta none. The same for the whole gesture,
  where the delta is the one of the last move. The drop handler of \<open>useEventDrag\<close> writes
  nothing when the event is dropped on its own day or outside a day cell; dropped on another
  day it issues one write, the start property with the day dropped on, and leaves the end
  property alone.
\<close>

theorem calendar_drag_commit_writes:
  assumes "0 < getDayWidth containerWidth"
    and "dragStartRef s = Some (x, sd, ed)"
    and "find (\<lambda>e. eventId e = activeId) events = Some dropped"
  shows "(dragDeltaDays s \<noteq> 0 \<longrightarrow>
            fst (multiDayDrag_handleMouseUp ev dateProperty endDateProp s) =
              [(eventFile ev, dateProperty, formatDateString (addDays sd (dragDeltaDays s))),
               (eventFile ev, endDateProp, formatDateString (addDays ed (dragDeltaDays s)))])
       \<and> (dragDeltaDays s = 0 \<longrightarrow>
            fst (multiDayDrag_handleMouseUp ev dateProperty endDateProp s) = [])
       \<and> (accumulatedDelta (getDayWidth containerWidth) clientX moves \<noteq> 0 \<longrightarrow>
            multiDayDrag_gesture ev dateProperty endDateProp 0 containerWidth clientX moves =
              [(eventFile ev, dateProperty,
                  formatDateString (addDays (date ev)
                     (accumulatedDelta (getDayWidth containerWidth) clientX moves))),
               (eventFile ev, endDateProp,
                  formatDateString (addDays (case endDate ev of Some e \<Rightarrow> e | None \<Rightarrow> date ev)
                     (accumulatedDelta (getDayWidth containerWidth) clientX moves)))])
       \<and> (accumulatedDelta (getDayWidth containerWidth) clientX moves = 0 \<longrightarrow>
            multiDayDrag_gesture ev dateProperty endDateProp 0 containerWidth clientX moves = [])
       \<and> eventDrag_handleDragEnd events dateProperty activeId
            (Some (formatDateString (date dropped))) = []
       \<and> eventDrag_handleDragEnd events dateProperty activeId None = []
       \<and> (newDateString \<noteq> formatDateString (date dropped) \<longrightarrow>
            eventDrag_handleDragEnd events dateProperty activeId (Some newDateString)
              = [(eventFile dropped, dateProperty, newDateString)])"
  using assms(2,3) eventDrag_handleDragEnd_changed[OF assms(3), of newDateString dateProperty]
  by (simp add: multiDayDrag_gesture_writes multiDayDrag_handleMouseUp_def Let_def
      eventDrag_handleDragEnd_def)

text \<open>
  Claim C4 as stated fails for the drop handler: an event from 2025-01-01 to 2025-01-10
  dropped on 2025-01-04 gets one write, the start property, and its end property is not
  shifted.
\<close>

theorem drop_on_other_day_writes_start_only:
  "endDate (mkEvent ''note.md'' 1735689600000 (Some 1736467200000)) = Some 1736467200000
   \<and> formatDateString (date (mkEvent ''note.md'' 1735689600000 (Some 1736467200000))) = ''2025-01-01''
   \<and> formatDateString 1736467200000 = ''2025-01-10''
   \<and> eventDrag_handleDragEnd [mkEvent ''note.md'' 1735689600000 (Some 1736467200000)]
        ''start'' ''note.md'' (Some ''2025-01-04'') = [(''note.md'', ''start'', ''2025-01-04'')]"
  by code_simp

text \<open>
  Claim C9. A calendar drag of an event without end date, with a non-zero day delta, writes
  the start property and the end property, both with the shifted start date, and nothing else.
\<close>

theorem drag_without_end_writes_both:
  assumes "endDate ev = None"
    and "accumulatedDelta (getDayWidth containerWidth) clientX moves \<noteq> 0"
    and "0 < getDayWidth containerWidth"
  shows "multiDayDrag_gesture ev dateProperty endDateProp 0 containerWidth clientX moves =
           [(eventFile ev, dateProperty,
               formatDateString (addDays (date ev)
                  (accumulatedDelta (getDayWidth containerWidth) clientX moves))),
            (eventFile ev, endDateProp,
               formatDateString (addDays (date ev)
                  (accumulatedDelta (getDayWidth containerWidth) clientX moves)))]
       \<and> map (\<lambda>w. fst (snd w))
            (multiDayDrag_gesture ev dateProperty endDateProp 0 containerWidth clientX moves)
           = [dateProperty, endDateProp]"
  using assms(1,2) by (simp add: multiDayDrag_gesture_writes)






lemma taskResize_gesture_no_writes:
  assumes "\<forall>x\<in>set moves. \<forall>had. fst (taskResize_handleMouseMove task hdl startX pixelsPerDay had x) = []"
  shows "taskResize_gesture task hdl startX pixelsPerDay moves = []"
proof -
  have "fst (fold (\<lambda>clientX st.
                  let r = taskResize_handleMouseMove task hdl startX pixelsPerDay (snd st) clientX
                  in (fst st @ fst r, snd r))
               moves ([], False)) = []"
  proof (rule fold_invariant[where P = "\<lambda>st. fst st = []"])
    show "fst ([] :: propertyWrite list, False) = []" by simp
  next
    fix x and st :: "propertyWrite list \<times> bool"
    assume "x \<in> set moves" "fst st = []"
    then show "fst (let r = taskResize_handleMouseMove task hdl startX pixelsPerDay (snd st) x
                    in (fst st @ fst r, snd r)) = []"
      using assms by (simp add: Let_def)
  qed
  then show ?thesis
    by (simp add: taskResize_gesture_def)
qed

text \<open>
  Claim C1, amended. Gantt task resize (a write on every move): a write is issued only for a
  candidate start strictly before the task's end, or a candidate end strictly after its
  start, and it carries the candidate itself; a candidate start on or after the end, or a
  candidate end on or before the start, issues no write, and a gesture of such moves issues
  none and leaves the store as it was. Calendar event resize (preview, then commit): every
  move updates the preview delta; at mouse-up a start is written only when it is on or before
  the original end, an end only when it is on or after the original start, and a candidate
  beyond issues no write.
\<close>

theorem resize_validation:
  assumes "0 < pixelsPerDay"
  shows
   "(w \<in> set (fst (taskResize_handleMouseMove task hdl startX pixelsPerDay had clientX)) \<longrightarrow>
       (hdl = HandleStart \<longrightarrow>
          calculateDateFromDelta (startDate task) (clientX - startX) pixelsPerDay < taskEndDate task
          \<and> w = (taskFile task, startDateProperty task,
                  toISOString (calculateDateFromDelta (startDate task) (clientX - startX) pixelsPerDay)))
     \<and> (hdl = HandleEnd \<longrightarrow>
          calculateDateFromDelta (taskEndDate task) (clientX - startX) pixelsPerDay > startDate task
          \<and> w = (taskFile task, endDateProperty task,
                  toISOString (calculateDateFromDelta (taskEndDate task) (clientX - startX) pixelsPerDay))))
  \<and> (calculateDateFromDelta (startDate task) (clientX - startX) pixelsPerDay \<ge> taskEndDate task \<longrightarrow>
        fst (taskResize_handleMouseMove task HandleStart startX pixelsPerDay had clientX) = [])
  \<and> (calculateDateFromDelta (taskEndDate task) (clientX - startX) pixelsPerDay \<le> startDate task \<longrightarrow>
        fst (taskResize_handleMouseMove task HandleEnd startX pixelsPerDay had clientX) = [])
  \<and> ((\<forall>x\<in>set moves. calculateDateFromDelta (startDate task) (x - startX) pixelsPerDay \<ge> taskEndDate task) \<longrightarrow>
        taskResize_gesture task HandleStart startX pixelsPerDay moves = []
        \<and> applyWrites store (taskResize_gesture task HandleStart startX pixelsPerDay moves) = store)
  \<and> resizePreviewDelta (eventResize_handleMouseMove s clientX)
        = Some (resizeHandle s, Math_round ((clientX - resizeStartX s) / resizeDayWidth s))
  \<and> (v \<in> set (eventResize_handleMouseUp ev dateProperty endDateProp s) \<longrightarrow>
       resizeDeltaDays s \<noteq> 0
     \<and> (resizeHandle s = HandleStart \<longrightarrow>
          addDays (originalStartDate s) (resizeDeltaDays s) \<le> originalEndDate s
          \<and> v = (eventFile ev, dateProperty,
                  formatDateString (addDays (originalStartDate s) (resizeDeltaDays s))))
     \<and> (resizeHandle s = HandleEnd \<longrightarrow>
          addDays (originalEndDate s) (resizeDeltaDays s) \<ge> originalStartDate s
          \<and> v = (eventFile ev, endDateProp,
                  formatDateString (addDays (originalEndDate s) (resizeDeltaDays s)))))
  \<and> (resizeHandle s = HandleStart
        \<and> addDays (originalStartDate s) (resizeDeltaDays s) > originalEndDate s \<longrightarrow>
        eventResize_handleMouseUp ev dateProperty endDateProp s = [])
  \<and> (resizeHandle s = HandleEnd
        \<and> addDays (originalEndDate s) (resizeDeltaDays s) < originalStartDate s \<longrightarrow>
        eventResize_handleMouseUp ev dateProperty endDateProp s = [])"
proof (intro conjI impI)
  assume w: "w \<in> set (fst (taskResize_handleMouseMove task hdl startX pixelsPerDay had clientX))"
  {
    assume h: "hdl = HandleStart"
    from w h show "calculateDateFromDelta (startDate task) (clientX - startX) pixelsPerDay < taskEndDate task"
      by (auto simp: taskResize_handleMouseMove_def Let_def split: if_splits)
    from w h show "w = (taskFile task, startDateProperty task,
                  toISOString (calculateDateFromDelta (startDate task) (clientX - startX) pixelsPerDay))"
      by (auto simp: taskResize_handleMouseMove_def Let_def split: if_splits)
  }
  {
    assume h: "hdl = HandleEnd"
    from w h show "calculateDateFromDelta (taskEndDate task) (clientX - startX) pixelsPerDay > startDate task"
      by (auto simp: taskResize_handleMouseMove_def Let_def split: if_splits)
    from w h show "w = (taskFile task, endDateProperty task,
                  toISOString (calculateDateFromDelta (taskEndDate task) (clientX - startX) pixelsPerDay))"
      by (auto simp: taskResize_handleMouseMove_def Let_def split: if_splits)
  }
next
  assume "calculateDateFromDelta (startDate task) (clientX - startX) pixelsPerDay \<ge> taskEndDate task"
  then show "fst (taskResize_handleMouseMove task HandleStart startX pixelsPerDay had clientX) = []"
    by (simp add: taskResize_handleMouseMove_def Let_def)
next
  assume "calculateDateFromDelta (taskEndDate task) (clientX - startX) pixelsPerDay \<le> startDate task"
  then show "fst (taskResize_handleMouseMove task HandleEnd startX pixelsPerDay had clientX) = []"
    by (simp add: taskResize_handleMouseMove_def Let_def)
next
  assume a: "\<forall>x\<in>set moves. calculateDateFromDelta (startDate task) (x - startX) pixelsPerDay \<ge> taskEndDate task"
  have "\<forall>x\<in>set moves. \<forall>had. fst (taskResize_handleMouseMove task HandleStart startX pixelsPerDay had x) = []"
    using a by (simp add: taskResize_handleMouseMove_def Let_def)
  then show g: "taskResize_gesture task HandleStart startX pixelsPerDay moves = []"
    by (rule taskResize_gesture_no_writes)
  show "applyWrites store (taskResize_gesture task HandleStart startX pixelsPerDay moves) = store"
    unfolding g by (simp add: applyWrites_def)
next
  show "resizePreviewDelta (eventResize_handleMouseMove s clientX)
        = Some (resizeHandle s, Math_round ((clientX - resizeStartX s) / resizeDayWidth s))"
    by (simp add: eventResize_handleMouseMove_def Let_def)
next
  assume v: "v \<in> set (eventResize_handleMouseUp ev dateProperty endDateProp s)"
  then show "resizeDeltaDays s \<noteq> 0"
    by (auto simp: eventResize_handleMouseUp_def)
  {
    assume h: "resizeHandle s = HandleStart"
    from v h show "addDays (originalStartDate s) (resizeDeltaDays s) \<le> originalEndDate s"
      by (auto simp: eventResize_handleMouseUp_def Let_def split: if_splits)
    from v h show "v = (eventFile ev, dateProperty,
                  formatDateString (addDays (originalStartDate s) (resizeDeltaDays s)))"
      by (auto simp: eventResize_handleMouseUp_def Let_def split: if_splits)
  }
  {
    assume h: "resizeHandle s = HandleEnd"
    from v h show "addDays (originalEndDate s) (resizeDeltaDays s) \<ge> originalStartDate s"
      by (auto simp: eventResize_handleMouseUp_def Let_def split: if_splits)
    from v h show "v = (eventFile ev, endDateProp,
                  formatDateString (addDays (originalEndDate s) (resizeDeltaDays s)))"
      by (auto simp: eventResize_handleMouseUp_def Let_def split: if_splits)
  }
next
  assume "resizeHandle s = HandleStart
        \<and> addDays (originalStartDate s) (resizeDeltaDays s) > originalEndDate s"
  then show "eventResize_handleMouseUp ev dateProperty endDateProp s = []"
    by (simp add: eventResize_handleMouseUp_def Let_def)
next
  assume "resizeHandle s = HandleEnd
        \<and> addDays (originalEndDate s) (resizeDeltaDays s) < originalStartDate s"
  then show "eventResize_handleMouseUp ev dateProperty endDateProp s = []"
    by (simp add: eventResize_handleMouseUp_def Let_def)
qed


text \<open>
  Claim C1 as stated fails for the calendar: resizing the start of an event from 1970-01-01
  to 1970-01-03 by two days writes the start 1970-01-03, which is not strictly before the end.
\<close>

theorem calendar_resize_start_equal_end_written:
  "eventResize_gesture (mkEvent ''note.md'' 0 (Some 172800000)) ''start'' ''end'' HandleStart None 0 [200]
     = [(''note.md'', ''start'', ''1970-01-03'')]
   \<and> \<not> addDays 0 2 < 172800000"
  by code_simp


text \<open>A task from day 1 to day 10 at 10 pixels per day; an event from day 0 to day 2.\<close>

theorem resize_validation_witness:
  "(0::real) < 10
   \<and> (''t.md'', ''start'', ''1970-01-05T00:00:00.000Z'')
        \<in> set (fst (taskResize_handleMouseMove (mkTask ''t.md'' 86400000 864000000 None) HandleStart 0 10 False 30))
   \<and> calculateDateFromDelta (startDate (mkTask ''t.md'' 86400000 864000000 None)) (30 - 0) 10
        < taskEndDate (mkTask ''t.md'' 86400000 864000000 None)
   \<and> calculateDateFromDelta (startDate (mkTask ''t.md'' 86400000 864000000 None)) (90 - 0) 10
        \<ge> taskEndDate (mkTask ''t.md'' 86400000 864000000 None)
   \<and> calculateDateFromDelta (startDate (mkTask ''t.md'' 86400000 864000000 None)) (200 - 0) 10
        \<ge> taskEndDate (mkTask ''t.md'' 86400000 864000000 None)
   \<and> taskResize_gesture (mkTask ''t.md'' 86400000 864000000 None) HandleStart 0 10 [90, 200] = []
   \<and> (''note.md'', ''start'', ''1970-01-03'')
        \<in> set (eventResize_handleMouseUp (mkEvent ''note.md'' 0 (Some 172800000)) ''start'' ''end''
            (eventResize_handleMouseMove
               (eventResize_handleResizeStart (mkEvent ''note.md'' 0 (Some 172800000)) HandleStart 0 None) 200))
   \<and> addDays 0 2 \<le> (172800000::int)"
proof -
  let ?T = "mkTask ''t.md'' 86400000 864000000 None"
  let ?E = "mkEvent ''note.md'' 0 (Some 172800000)"
  let ?S = "eventResize_handleMouseMove (eventResize_handleResizeStart ?E HandleStart 0 None) 200"
  have p: "(0::real) < 10" by simp
  have w: "(''t.md'', ''start'', ''1970-01-05T00:00:00.000Z'')
        \<in> set (fst (taskResize_handleMouseMove ?T HandleStart 0 10 False 30))"
    by code_simp
  have far: "\<forall>x\<in>set [90, 200]. calculateDateFromDelta (startDate ?T) (x - 0) 10 \<ge> taskEndDate ?T"
    by code_simp
  have v: "(''note.md'', ''start'', ''1970-01-03'') \<in> set (eventResize_handleMouseUp ?E ''start'' ''end'' ?S)"
    by code_simp
  have S: "resizeHandle ?S = HandleStart" "originalStartDate ?S = 0" "resizeDeltaDays ?S = 2"
    "originalEndDate ?S = 172800000"
    by code_simp+
  note T = resize_validation[OF p, where task = ?T and hdl = HandleStart and startX = 0 and had = False
      and clientX = 30 and moves = "[90, 200]" and s = ?S and ev = ?E and dateProperty = "''start''"
      and endDateProp = "''end''" and w = "(''t.md'', ''start'', ''1970-01-05T00:00:00.000Z'')"
      and v = "(''note.md'', ''start'', ''1970-01-03'')"]
  have a: "calculateDateFromDelta (startDate ?T) (30 - 0) 10 < taskEndDate ?T"
    using T w by blast
  have b: "taskResize_gesture ?T HandleStart 0 10 [90, 200] = []"
    using T far by blast
  have c: "addDays (originalStartDate ?S) (resizeDeltaDays ?S) \<le> originalEndDate ?S"
    using T v S(1) by blast
  have far': "calculateDateFromDelta (startDate ?T) (90 - 0) 10 \<ge> taskEndDate ?T"
    "calculateDateFromDelta (startDate ?T) (200 - 0) 10 \<ge> taskEndDate ?T"
    using far by simp_all
  show ?thesis
    using p w a far' b v c unfolding S by blast
qed

text \<open>An event from 2025-01-01 to 2025-01-10 dragged three day widths, and dragged back.\<close>

theorem calendar_drag_commit_writes_witness:
  "0 < getDayWidth (Some 700)
   \<and> accumulatedDelta (getDayWidth (Some 700)) 10 [50, 310] = 3
   \<and> multiDayDrag_gesture (mkEvent ''note.md'' 1735689600000 (Some 1736467200000))
        ''start'' ''end'' 0 (Some 700) 10 [50, 310]
      = [(''note.md'', ''start'', ''2025-01-04''), (''note.md'', ''end'', ''2025-01-13'')]
   \<and> accumulatedDelta (getDayWidth (Some 700)) 10 [50, 310, 12] = 0
   \<and> multiDayDrag_gesture (mkEvent ''note.md'' 1735689600000 (Some 1736467200000))
        ''start'' ''end'' 0 (Some 700) 10 [50, 310, 12] = []
   \<and> eventDrag_handleDragEnd [mkEvent ''note.md'' 1735689600000 (Some 1736467200000)]
        ''start'' ''note.md'' (Some ''2025-01-01'') = []
   \<and> eventDrag_handleDragEnd [mkEvent ''note.md'' 1735689600000 (Some 1736467200000)]
        ''start'' ''note.md'' (Some ''2025-01-04'') = [(''note.md'', ''start'', ''2025-01-04'')]"
proof -
  let ?E = "mkEvent ''note.md'' 1735689600000 (Some 1736467200000)"
  let ?S = "\<lparr>dragStartRef = Some (10, 1735689600000, 1736467200000), dragDayWidth = 100,
             dragDeltaDays = 3, dragPreviewDelta = 3, dragHadMovement = True\<rparr>"
  have h1: "0 < getDayWidth (Some 700)" by (simp add: getDayWidth_def)
  have h2: "dragStartRef ?S = Some (10, 1735689600000, 1736467200000)" by simp
  have h3: "find (\<lambda>e. eventId e = ''note.md'') [?E] = Some ?E" by (simp add: mkEvent_def)
  have d1: "accumulatedDelta (getDayWidth (Some 700)) 10 [50, 310] = 3"
    and d2: "accumulatedDelta (getDayWidth (Some 700)) 10 [50, 310, 12] = 0"
    by code_simp+
  have f: "eventFile ?E = ''note.md''"
    "formatDateString (addDays (date ?E) 3) = ''2025-01-04''"
    "formatDateString (addDays (case endDate ?E of Some e \<Rightarrow> e | None \<Rightarrow> date ?E) 3) = ''2025-01-13''"
    "formatDateString (date ?E) = ''2025-01-01''"
    by code_simp+
  note A = calendar_drag_commit_writes[OF h1 h2 h3, where ev = ?E and dateProperty = "''start''" and endDateProp = "''end''"
      and clientX = 10 and moves = "[50, 310]" and newDateString = "''2025-01-04''"]
  note B = calendar_drag_commit_writes[OF h1 h2 h3, where ev = ?E and dateProperty = "''start''" and endDateProp = "''end''"
      and clientX = 10 and moves = "[50, 310, 12]"]
  have g1: "multiDayDrag_gesture ?E ''start'' ''end'' 0 (Some 700) 10 [50, 310]
      = [(''note.md'', ''start'', ''2025-01-04''), (''note.md'', ''end'', ''2025-01-13'')]"
    using A unfolding d1 f by simp
  have g2: "multiDayDrag_gesture ?E ''start'' ''end'' 0 (Some 700) 10 [50, 310, 12] = []"
    using B unfolding d2 by simp
  have g3: "eventDrag_handleDragEnd [?E] ''start'' ''note.md'' (Some ''2025-01-01'') = []"
    using A unfolding f by simp
  have g4: "eventDrag_handleDragEnd [?E] ''start'' ''note.md'' (Some ''2025-01-04'')
      = [(''note.md'', ''start'', ''2025-01-04'')]"
    using A unfolding f by simp
  show ?thesis
    using h1 d1 d2 g1 g2 g3 g4 by blast
qed

text \<open>No task in January 2025; two tasks reaching from January to March 2025.\<close>

theorem timelineRange_window_witness:
  "calculateTimelineRange 1736000000000 [] = Some (1735689600000, 1738367999999)
   \<and> [mkTask ''a'' 1738000000000 1739000000000 None, mkTask ''b'' 1741000000000 1743000000000 None] \<noteq> []
   \<and> calculateTimelineRange 1736000000000
        [mkTask ''a'' 1738000000000 1739000000000 None, mkTask ''b'' 1741000000000 1743000000000 None]
      = Some (1735689600000, 1743465599999)"
proof -
  let ?ts = "[mkTask ''a'' 1738000000000 1739000000000 None, mkTask ''b'' 1741000000000 1743000000000 None]"
  have m: "Min (startDate ` set ?ts \<union> taskEndDate ` set ?ts) = 1738000000000"
    "Max (startDate ` set ?ts \<union> taskEndDate ` set ?ts) = 1743000000000"
    by (simp_all add: mkTask_def)
  have e: "startOfMonth 1736000000000 = 1735689600000" "endOfMonth 1736000000000 = 1738367999999"
    "startOfMonth 1738000000000 = 1735689600000" "endOfMonth 1743000000000 = 1743465599999"
    by code_simp+
  have ne: "?ts \<noteq> []" by simp
  from timelineRange_window[of "[]" 1736000000000] have a: "calculateTimelineRange 1736000000000 [] = Some (1735689600000, 1738367999999)"
    unfolding e by simp
  from timelineRange_window[of ?ts 1736000000000] ne
  have b: "calculateTimelineRange 1736000000000 ?ts = Some (1735689600000, 1743465599999)"
    unfolding m e by blast
  from a ne b show ?thesis by blast
qed


text \<open>An event on 1970-01-02 without end date, dragged three day widths.\<close>

theorem drag_without_end_writes_both_witness:
  "endDate (mkEvent ''note.md'' 86400000 None) = None
   \<and> accumulatedDelta (getDayWidth (Some 700)) 10 [50, 310] = 3
   \<and> 0 < getDayWidth (Some 700)
   \<and> multiDayDrag_gesture (mkEvent ''note.md'' 86400000 None) ''start'' ''end'' 0 (Some 700) 10 [50, 310]
      = [(''note.md'', ''start'', ''1970-01-05''), (''note.md'', ''end'', ''1970-01-05'')]"
proof -
  let ?E = "mkEvent ''note.md'' 86400000 None"
  have h1: "endDate ?E = None" by (simp add: mkEvent_def)
  have d: "accumulatedDelta (getDayWidth (Some 700)) 10 [50, 310] = 3" by code_simp
  then have h2: "accumulatedDelta (getDayWidth (Some 700)) 10 [50, 310] \<noteq> 0" by simp
  have h3: "0 < getDayWidth (Some 700)" by (simp add: getDayWidth_def)
  have f: "eventFile ?E = ''note.md''" "formatDateString (addDays (date ?E) 3) = ''1970-01-05''"
    by code_simp+
  from drag_without_end_writes_both[OF h1 h2 h3, of "''start''" "''end''"]
  have "multiDayDrag_gesture ?E ''start'' ''end'' 0 (Some 700) 10 [50, 310]
      = [(''note.md'', ''start'', ''1970-01-05''), (''note.md'', ''end'', ''1970-01-05'')]"
    unfolding d f by simp
  with h1 d h3 show ?thesis by blast
qed

end
